theory Spec2Isabelle
  imports Main "HOL-Library.Word" "HOL-Library.Sublist"
begin

unbundle bit_operations_syntax

section \<open>Quota service: formatting of the time until reset\<close>

text \<open>
  JavaScript's conversion of a non-negative integer to its decimal string, as used by the
  template literals of \<open>formatTimeUntilReset\<close>.
\<close>

definition digit_char :: "nat \<Rightarrow> char" where
  "digit_char d =
     (if d = 0 then CHR ''0'' else if d = 1 then CHR ''1'' else if d = 2 then CHR ''2''
      else if d = 3 then CHR ''3'' else if d = 4 then CHR ''4'' else if d = 5 then CHR ''5''
      else if d = 6 then CHR ''6'' else if d = 7 then CHR ''7'' else if d = 8 then CHR ''8''
      else CHR ''9'')"

fun nat_to_string :: "nat \<Rightarrow> string" where
  "nat_to_string n =
     (if n < 10 then [digit_char n]
      else nat_to_string (n div 10) @ [digit_char (n mod 10)])"

declare nat_to_string.simps [simp del]

definition number_to_string :: "int \<Rightarrow> string" where
  "number_to_string i =
     (if i < 0 then CHR ''-'' # nat_to_string (nat (- i)) else nat_to_string (nat i))"

text \<open>
  \<open>QuotaService.formatTimeUntilReset(ms)\<close>. The argument is a difference of two
  millisecond timestamps, an integer; \<open>Math.floor(a / b)\<close> on the positive values reached
  here is \<open>div\<close>.
\<close>

definition formatTimeUntilReset :: "int \<Rightarrow> string" where
  "formatTimeUntilReset ms =
     (if ms \<le> 0 then ''Expired''
      else
        let seconds = ms div 1000;
            minutes = seconds div 60;
            hours = minutes div 60;
            days = hours div 24
        in if days > 0 then
             number_to_string days @ ''d'' @ number_to_string (hours mod 24) @ ''h from now''
           else if hours > 0 then
             number_to_string hours @ ''h '' @ number_to_string (minutes mod 60) @ ''m from now''
           else if minutes > 0 then
             number_to_string minutes @ ''m '' @ number_to_string (seconds mod 60) @ ''s from now''
           else number_to_string seconds @ ''s from now'')"

text \<open>
  The number a string of decimal digits denotes, most significant digit first (the
  characters \<open>0\<close> to \<open>9\<close> have the codes 48 to 57).
\<close>

definition digit_value :: "char \<Rightarrow> nat" where
  "digit_value c = of_char c - 48"

definition decimal_value :: "string \<Rightarrow> nat" where
  "decimal_value s = foldl (\<lambda>a c. 10 * a + digit_value c) 0 s"

section \<open>Token storage: expiry check\<close>

datatype TokenSource = Manual | Imported

record TokenData =
  accessToken :: string
  refreshToken :: string
  expiresAt :: int
  tokenType :: string
  scope :: string
  source :: "TokenSource option"

text \<open>
  What the secret storage holds under the token key: nothing (or the empty string), a
  string that \<open>JSON.parse\<close> rejects, or the JSON of a \<open>TokenData\<close>.
\<close>

datatype stored_secret = NoEntry | Unparsable | StoredToken TokenData

datatype storage_error = NotInitialized

text \<open>
  The \<open>TokenStorage\<close> object: \<open>secretStorage\<close> is \<open>null\<close> until \<open>initialize\<close>.
\<close>

record TokenStorage =
  secretStorage :: "stored_secret option"

definition ensureInitialized :: "TokenStorage \<Rightarrow> storage_error + stored_secret" where
  "ensureInitialized ts =
     (case secretStorage ts of None \<Rightarrow> Inl NotInitialized | Some s \<Rightarrow> Inr s)"

definition getToken :: "TokenStorage \<Rightarrow> storage_error + TokenData option" where
  "getToken ts =
     (case ensureInitialized ts of
        Inl e \<Rightarrow> Inl e
      | Inr NoEntry \<Rightarrow> Inr None
      | Inr Unparsable \<Rightarrow> Inr None
      | Inr (StoredToken t) \<Rightarrow> Inr (Some t))"

definition DEFAULT_BUFFER_MS :: int where
  "DEFAULT_BUFFER_MS = 5 * 60 * 1000"

text \<open>
  JavaScript numbers are IEEE-754 doubles: 53 significant bits. An integer of magnitude
  below \<open>2 ^ 53\<close> is a double; the sum of two integer-valued doubles is the exact sum
  rounded to 53 significant bits, to the nearest and on a tie to the even significand.
  \<open>excess_bits n\<close> is the number of bits \<open>n\<close> has beyond 53. (A result of magnitude
  \<open>2 ^ 1024\<close> or more stands for \<open>Infinity\<close>, which compares with a finite number as
  that integer does.)
\<close>

function excess_bits :: "int \<Rightarrow> nat" where
  "excess_bits n = (if n < 2 ^ 53 then 0 else Suc (excess_bits (n div 2)))"
  by pat_completeness auto

termination
  by (relation "measure nat") simp_all

declare excess_bits.simps [simp del]

definition round_to_double :: "int \<Rightarrow> int" where
  "round_to_double x =
     (let n = \<bar>x\<bar>;
          e = excess_bits n;
          q = n div 2 ^ e;
          r = n mod 2 ^ e;
          q' = (if 2 * r > 2 ^ e then q + 1
                else if 2 * r = 2 ^ e \<and> odd q then q + 1
                else q)
      in sgn x * (q' * 2 ^ e))"

definition js_add :: "int \<Rightarrow> int \<Rightarrow> int" where
  "js_add a b = round_to_double (a + b)"

text \<open>
  \<open>TokenStorage.isTokenExpired(bufferMs = 5 * 60 * 1000)\<close>; \<open>now\<close> is the value of
  \<open>Date.now()\<close>, an omitted argument is \<open>None\<close>. The operands are integer-valued doubles.
\<close>

definition isTokenExpired :: "int \<Rightarrow> int option \<Rightarrow> TokenStorage \<Rightarrow> storage_error + bool" where
  "isTokenExpired now bufferArg ts =
     (let bufferMs = (case bufferArg of None \<Rightarrow> DEFAULT_BUFFER_MS | Some b \<Rightarrow> b)
      in case getToken ts of
           Inl e \<Rightarrow> Inl e
         | Inr None \<Rightarrow> Inr True
         | Inr (Some token) \<Rightarrow> Inr (js_add now bufferMs \<ge> expiresAt token))"

section \<open>Local token extractor: the protobuf scanner\<close>

text \<open>
  A \<open>Buffer\<close> is a sequence of bytes. Positions are JavaScript numbers that only ever hold
  integers of small magnitude, so they are \<open>int\<close>. Reading \<open>buffer[pos]\<close> outside
  \<open>0 \<le> pos < length\<close> gives \<open>undefined\<close>, here \<open>None\<close>.
\<close>

type_synonym Buffer = "8 word list"

definition buffer_at :: "Buffer \<Rightarrow> int \<Rightarrow> 8 word option" where
  "buffer_at buffer pos =
     (if 0 \<le> pos \<and> pos < int (length buffer) then Some (buffer ! nat pos) else None)"

text \<open>
  The loop of \<open>readVarint\<close>. The accumulator \<open>result\<close> goes through \<open>|=\<close> and \<open><<\<close>, which
  work on 32-bit two's complement integers and use the shift count modulo 32. On
  \<open>undefined\<close> (a negative position), \<open>byte & 0x7f\<close> and \<open>byte & 0x80\<close> are both 0, so the
  loop adds nothing, advances and stops.
\<close>

function readVarint_loop :: "Buffer \<Rightarrow> int \<Rightarrow> 32 word \<Rightarrow> nat \<Rightarrow> 32 word \<times> int" where
  "readVarint_loop buffer pos result shift =
     (if pos < int (length buffer) then
        (case buffer_at buffer pos of
           None \<Rightarrow> (result, pos + 1)
         | Some byte \<Rightarrow>
             let result' = result OR push_bit (shift mod 32) (ucast (byte AND 0x7f))
             in if byte AND 0x80 = 0 then (result', pos + 1)
                else readVarint_loop buffer (pos + 1) result' (shift + 7))
      else (result, pos))"
  by pat_completeness auto
termination
  by (relation "measure (\<lambda>(buffer, pos, result, shift). nat (int (length buffer) - pos))") auto

declare readVarint_loop.simps [simp del]

text \<open>\<open>readVarint(buffer, pos)\<close>: the pair \<open>(value, newPos)\<close>.\<close>

definition readVarint :: "Buffer \<Rightarrow> int \<Rightarrow> int \<times> int" where
  "readVarint buffer pos =
     (case readVarint_loop buffer pos 0 0 of (result, newPos) \<Rightarrow> (sint result, newPos))"

text \<open>
  \<open>buffer.slice(start, end)\<close>: a negative index counts from the end, every index is
  clamped to the buffer, and an end before the start gives the empty buffer.
\<close>

definition adjustOffset :: "int \<Rightarrow> nat \<Rightarrow> nat" where
  "adjustOffset offset len =
     (if offset < 0 then (if offset + int len > 0 then nat (offset + int len) else 0)
      else if offset < int len then nat offset else len)"

definition slice :: "Buffer \<Rightarrow> int \<Rightarrow> int \<Rightarrow> Buffer" where
  "slice buffer start end' =
     (let s = adjustOffset start (length buffer);
          e = adjustOffset end' (length buffer)
      in take (e - s) (drop s buffer))"

text \<open>
  The loop of \<open>findProtobufField\<close>, from position \<open>pos\<close>. The outer \<open>option\<close> is
  termination (\<open>None\<close>: the loop never returns), the inner one the result (\<open>None\<close> is
  \<open>null\<close>). The tag and the length are 32-bit signed values: \<open>tag & 0x07\<close> and \<open>tag >> 3\<close>
  are the bitwise operations on them, and \<open>pos += length\<close> adds a possibly negative number.
\<close>

partial_function (option) findProtobufField_loop ::
  "Buffer \<Rightarrow> int \<Rightarrow> int \<Rightarrow> Buffer option option" where
  "findProtobufField_loop buffer fieldNumber pos =
     (if pos < int (length buffer) then
        (case readVarint buffer pos of (tag, tagEndPos) \<Rightarrow>
           if tagEndPos \<ge> int (length buffer) then Some None
           else
             let wireType = tag AND 7;
                 field = drop_bit 3 tag
             in if wireType = 2 then
                  (case readVarint buffer tagEndPos of (len, lenEndPos) \<Rightarrow>
                     if field = fieldNumber then Some (Some (slice buffer lenEndPos (lenEndPos + len)))
                     else findProtobufField_loop buffer fieldNumber (lenEndPos + len))
                else if wireType = 0 then
                  findProtobufField_loop buffer fieldNumber (snd (readVarint buffer tagEndPos))
                else if wireType = 1 then findProtobufField_loop buffer fieldNumber (tagEndPos + 8)
                else if wireType = 5 then findProtobufField_loop buffer fieldNumber (tagEndPos + 4)
                else Some None)
      else Some None)"

declare findProtobufField_loop.simps [code]

definition findProtobufField :: "Buffer \<Rightarrow> int \<Rightarrow> Buffer option option" where
  "findProtobufField buffer fieldNumber = findProtobufField_loop buffer fieldNumber 0"

text \<open>
  \<open>parseProtobufForRefreshToken\<close>. A \<open>Buffer\<close> object is truthy even when empty, so the two
  \<open>!x\<close> tests only catch \<open>null\<close>. \<open>toString\<close> is the platform's
  \<open>Buffer.toString('utf-8')\<close>, which is total. Nothing in the body throws, so the
  \<open>catch\<close> branch has no input.
\<close>

definition parseProtobufForRefreshToken ::
  "(Buffer \<Rightarrow> string) \<Rightarrow> Buffer \<Rightarrow> string option option" where
  "parseProtobufForRefreshToken toString buffer =
     (case findProtobufField buffer 6 of
        None \<Rightarrow> None
      | Some None \<Rightarrow> Some None
      | Some (Some oauthData) \<Rightarrow>
          (case findProtobufField oauthData 3 of
             None \<Rightarrow> None
           | Some None \<Rightarrow> Some None
           | Some (Some refreshTokenBytes) \<Rightarrow> Some (Some (toString refreshTokenBytes))))"

section \<open>Quota service: the polling engine\<close>

datatype QuotaApiMethod = GET_USER_STATUS | GOOGLE_API

datatype AuthState =
  NOT_AUTHENTICATED | AUTHENTICATING | AUTHENTICATED | TOKEN_EXPIRED | REFRESHING | ERROR

text \<open>
  A thrown value as \<open>doFetchQuota\<close> looks at it: its \<open>message\<close>, its \<open>code\<close> (present on
  Node's system errors), and whether it is a \<open>GoogleApiError\<close> whose \<open>needsReauth()\<close> holds.
\<close>

record JsError =
  message :: string
  code :: "string option"
  needsReauth :: bool

record ModelQuotaInfo =
  label :: string
  modelId :: string
  timeUntilReset :: int
  timeUntilResetFormatted :: string

record QuotaSnapshot =
  models :: "ModelQuotaInfo list"
  planName :: "string option"
  userEmail :: "string option"

subsection \<open>Strings\<close>

text \<open>
  \<open>toLowerCase\<close> on the letters A to Z; the messages classified below are ASCII.
\<close>

definition toLowerChar :: "char \<Rightarrow> char" where
  "toLowerChar c =
     (if c = CHR ''A'' then CHR ''a''
      else if c = CHR ''B'' then CHR ''b''
      else if c = CHR ''C'' then CHR ''c''
      else if c = CHR ''D'' then CHR ''d''
      else if c = CHR ''E'' then CHR ''e''
      else if c = CHR ''F'' then CHR ''f''
      else if c = CHR ''G'' then CHR ''g''
      else if c = CHR ''H'' then CHR ''h''
      else if c = CHR ''I'' then CHR ''i''
      else if c = CHR ''J'' then CHR ''j''
      else if c = CHR ''K'' then CHR ''k''
      else if c = CHR ''L'' then CHR ''l''
      else if c = CHR ''M'' then CHR ''m''
      else if c = CHR ''N'' then CHR ''n''
      else if c = CHR ''O'' then CHR ''o''
      else if c = CHR ''P'' then CHR ''p''
      else if c = CHR ''Q'' then CHR ''q''
      else if c = CHR ''R'' then CHR ''r''
      else if c = CHR ''S'' then CHR ''s''
      else if c = CHR ''T'' then CHR ''t''
      else if c = CHR ''U'' then CHR ''u''
      else if c = CHR ''V'' then CHR ''v''
      else if c = CHR ''W'' then CHR ''w''
      else if c = CHR ''X'' then CHR ''x''
      else if c = CHR ''Y'' then CHR ''y''
      else if c = CHR ''Z'' then CHR ''z''
      else c)"

definition toLowerCase :: "string \<Rightarrow> string" where
  "toLowerCase s = map toLowerChar s"

text \<open>\<open>s.includes(sub)\<close>: \<open>sub\<close> occurs in \<open>s\<close> as a contiguous block.\<close>

primrec includes_str :: "string \<Rightarrow> string \<Rightarrow> bool" where
  "includes_str [] sub = (sub = [])"
| "includes_str (c # cs) sub = (if prefix sub (c # cs) then True else includes_str cs sub)"

subsection \<open>Classification of errors\<close>

definition isNetworkOrTimeoutError :: "JsError \<Rightarrow> bool" where
  "isNetworkOrTimeoutError error =
     (let m = toLowerCase (message error) in
        if includes_str m ''network'' then True
        else if includes_str m ''timeout'' then True
        else if includes_str m ''econnrefused'' then True
        else if includes_str m ''enotfound'' then True
        else if includes_str m ''econnreset'' then True
        else if includes_str m ''socket hang up'' then True
        else if code error = Some ''ECONNREFUSED'' then True
        else if code error = Some ''ENOTFOUND'' then True
        else if code error = Some ''ECONNRESET'' then True
        else code error = Some ''ETIMEDOUT'')"

definition isAuthError :: "JsError \<Rightarrow> bool" where
  "isAuthError error =
     (if needsReauth error then True
      else let m = toLowerCase (message error) in
        if includes_str m ''not authenticated'' then True
        else if includes_str m ''unauthorized'' then True
        else includes_str m ''invalid_grant'')"

subsection \<open>State\<close>

datatype status = fetching | retrying

datatype callback =
    StatusCallback status "nat option"
  | AuthStatusCallback bool bool
  | StaleCallback bool
  | ErrorCallback JsError
  | UpdateCallback QuotaSnapshot

text \<open>
  An activation of \<open>doFetchQuota\<close> (or of \<open>fetchQuota\<close>) suspended at its \<open>await\<close>: the
  request is in flight, or the promise awaited is already settled (the request function
  threw before any I/O, \<open>handleGoogleApiQuota\<close> returned \<open>null\<close>, or \<open>fetchQuota\<close> returned at
  its \<open>isRetrying\<close> guard).
\<close>

datatype pending =
    InFlight QuotaApiMethod
  | Rejected JsError
  | ReturnedNull
  | NotFetched

text \<open>Who awaits the fetch, and so what runs after it.\<close>

datatype caller = FromStartPolling nat | FromRetryFromError nat | FromTimer

text \<open>
  How the awaited request ends inside the \<open>try\<close> block. For the local method this covers
  the checks made on the response there as well (\<open>getInvalidCodeInfo\<close>,
  \<open>parseGetUserStatusResponse\<close>): they throw an \<open>Error\<close> like a failed request does.
\<close>

datatype outcome = Succeeded QuotaSnapshot | Failed JsError

text \<open>
  The \<open>QuotaService\<close> object (a callback field is whether one is registered) together
  with what the runtime holds for it: the state of the auth service read by
  \<open>getAuthState()\<close>, the armed \<open>setInterval\<close> and \<open>setTimeout\<close> timers (handle and period or
  delay), the log of every \<open>setTimeout\<close> call, the callbacks made, the requests sent, and
  the suspended activations.
\<close>

record World =
  apiMethod :: QuotaApiMethod
  pollingInterval :: "nat option"
  updateCallback :: bool
  errorCallback :: bool
  statusCallback :: bool
  authStatusCallback :: bool
  staleCallback :: bool
  isFirstAttempt :: bool
  consecutiveErrors :: nat
  retryCount :: nat
  isRetrying :: bool
  isPollingTransition :: bool
  csrfToken :: "string option"
  authState :: AuthState
  intervals :: "(nat \<times> nat) list"
  timeouts :: "(nat \<times> nat) list"
  scheduled :: "(nat \<times> nat) list"
  nextHandle :: nat
  calls :: "callback list"
  requests :: "QuotaApiMethod list"
  suspended :: "(pending \<times> caller) list"

definition MAX_RETRY_COUNT :: nat where
  "MAX_RETRY_COUNT = 3"

definition RETRY_DELAY_MS :: nat where
  "RETRY_DELAY_MS = 5000"

text \<open>The object after \<open>new QuotaService(port, csrfToken)\<close>, nothing registered or armed.\<close>

definition newQuotaService :: "string option \<Rightarrow> AuthState \<Rightarrow> World" where
  "newQuotaService token auth =
     \<lparr>apiMethod = GET_USER_STATUS, pollingInterval = None,
      updateCallback = False, errorCallback = False, statusCallback = False,
      authStatusCallback = False, staleCallback = False,
      isFirstAttempt = True, consecutiveErrors = 0, retryCount = 0,
      isRetrying = False, isPollingTransition = False, csrfToken = token,
      authState = auth, intervals = [], timeouts = [], scheduled = [], nextHandle = 0,
      calls = [], requests = [], suspended = []\<rparr>"

subsection \<open>Runtime primitives\<close>

definition invoke :: "bool \<Rightarrow> callback \<Rightarrow> World \<Rightarrow> World" where
  "invoke registered cb w = (if registered then w\<lparr>calls := calls w @ [cb]\<rparr> else w)"

definition setInterval :: "nat \<Rightarrow> World \<Rightarrow> World" where
  "setInterval ms w =
     w\<lparr>pollingInterval := Some (nextHandle w),
       intervals := intervals w @ [(nextHandle w, ms)],
       nextHandle := nextHandle w + 1\<rparr>"

definition setTimeout :: "nat \<Rightarrow> World \<Rightarrow> World" where
  "setTimeout ms w =
     w\<lparr>timeouts := timeouts w @ [(nextHandle w, ms)],
       scheduled := scheduled w @ [(nextHandle w, ms)],
       nextHandle := nextHandle w + 1\<rparr>"

definition clearInterval :: "nat \<Rightarrow> World \<Rightarrow> World" where
  "clearInterval h w = w\<lparr>intervals := filter (\<lambda>t. fst t \<noteq> h) (intervals w)\<rparr>"

definition suspend :: "pending \<Rightarrow> caller \<Rightarrow> World \<Rightarrow> World" where
  "suspend p c w = w\<lparr>suspended := suspended w @ [(p, c)]\<rparr>"

subsection \<open>Operations\<close>

definition stopPolling :: "World \<Rightarrow> World" where
  "stopPolling w =
     (case pollingInterval w of
        None \<Rightarrow> w
      | Some h \<Rightarrow> (clearInterval h w)\<lparr>pollingInterval := None\<rparr>)"

text \<open>
  \<open>makeRequest\<close> up to its first I/O: without a CSRF token (\<open>undefined\<close> or the empty
  string) it throws before anything is sent.
\<close>

definition makeRequest :: "World \<Rightarrow> World \<times> pending" where
  "makeRequest w =
     (if csrfToken w \<noteq> None \<and> csrfToken w \<noteq> Some []
      then (w\<lparr>requests := requests w @ [GET_USER_STATUS]\<rparr>, InFlight GET_USER_STATUS)
      else (w, Rejected \<lparr>message = ''Missing CSRF token'', code = None, needsReauth = False\<rparr>))"

text \<open>\<open>handleGoogleApiQuota\<close> up to the request of \<open>fetchQuotaViaGoogleApi\<close>.\<close>

definition handleGoogleApiQuota :: "World \<Rightarrow> World \<times> pending" where
  "handleGoogleApiQuota w =
     (case authState w of
        NOT_AUTHENTICATED \<Rightarrow>
          ((invoke (authStatusCallback w) (AuthStatusCallback True False) w)
             \<lparr>isFirstAttempt := False\<rparr>, ReturnedNull)
      | TOKEN_EXPIRED \<Rightarrow>
          ((invoke (authStatusCallback w) (AuthStatusCallback True True) w)
             \<lparr>isFirstAttempt := False\<rparr>, ReturnedNull)
      | AUTHENTICATING \<Rightarrow> (w, ReturnedNull)
      | REFRESHING \<Rightarrow> (w, ReturnedNull)
      | _ \<Rightarrow> (w\<lparr>requests := requests w @ [GOOGLE_API]\<rparr>, InFlight GOOGLE_API))"

text \<open>\<open>doFetchQuota\<close> from its entry to the \<open>await\<close> inside the \<open>try\<close>.\<close>

definition doFetchQuota_begin :: "caller \<Rightarrow> World \<Rightarrow> World" where
  "doFetchQuota_begin c w =
     (let w1 = invoke (statusCallback w \<and> isFirstAttempt w) (StatusCallback fetching None) w;
          (w2, p) = (case apiMethod w1 of
                       GOOGLE_API \<Rightarrow> handleGoogleApiQuota w1
                     | GET_USER_STATUS \<Rightarrow> makeRequest w1)
      in suspend p c w2)"

text \<open>
  \<open>fetchQuota\<close>: nothing happens while a retry is pending. A caller that awaits the
  result stays suspended until the next turn even then.
\<close>

definition fetchQuota_begin :: "caller \<Rightarrow> World \<Rightarrow> World" where
  "fetchQuota_begin c w =
     (if isRetrying w then (if c = FromTimer then w else suspend NotFetched c w)
      else doFetchQuota_begin c w)"

text \<open>The \<open>catch\<close> block of \<open>doFetchQuota\<close>.\<close>

definition doFetchQuota_catch :: "JsError \<Rightarrow> World \<Rightarrow> World" where
  "doFetchQuota_catch error w0 =
     (let w = w0\<lparr>consecutiveErrors := consecutiveErrors w0 + 1\<rparr> in
      if apiMethod w = GOOGLE_API \<and> isAuthError error then
        (let m = toLowerCase (message error);
             isExpired = (if includes_str m ''expired'' then True else includes_str m ''invalid_grant'');
             w1 = invoke (authStatusCallback w) (AuthStatusCallback True isExpired) w
         in (stopPolling w1)\<lparr>isRetrying := False, retryCount := 0, isFirstAttempt := False\<rparr>)
      else if apiMethod w = GOOGLE_API \<and> isNetworkOrTimeoutError error then
        (invoke (staleCallback w) (StaleCallback True) w)
          \<lparr>retryCount := 0, isFirstAttempt := False\<rparr>
      else if retryCount w < MAX_RETRY_COUNT then
        (let w1 = w\<lparr>retryCount := retryCount w + 1, isRetrying := True\<rparr>;
             w2 = invoke (statusCallback w1) (StatusCallback retrying (Some (retryCount w1))) w1
         in setTimeout RETRY_DELAY_MS w2)
      else
        (let w1 = stopPolling w in invoke (errorCallback w1) (ErrorCallback error) w1))"

text \<open>The rest of the \<open>try\<close> block once a snapshot is there.\<close>

definition doFetchQuota_success :: "QuotaSnapshot \<Rightarrow> World \<Rightarrow> World" where
  "doFetchQuota_success snapshot w0 =
     (let w = w0\<lparr>consecutiveErrors := 0, retryCount := 0, isFirstAttempt := False\<rparr>;
          w1 = invoke (apiMethod w = GOOGLE_API \<and> staleCallback w) (StaleCallback False) w
      in invoke (updateCallback w1) (UpdateCallback snapshot) w1)"

text \<open>
  What \<open>fetchQuotaViaGoogleApi\<close> does itself when its request settles, before the result
  reaches \<open>doFetchQuota\<close>.
\<close>

definition fetchQuotaViaGoogleApi_settle :: "outcome \<Rightarrow> World \<Rightarrow> World" where
  "fetchQuotaViaGoogleApi_settle r w =
     (case r of
        Succeeded snapshot \<Rightarrow> invoke (authStatusCallback w) (AuthStatusCallback False False) w
      | Failed error \<Rightarrow>
          invoke (needsReauth error \<and> authStatusCallback w) (AuthStatusCallback True True) w)"

definition doFetchQuota_settle :: "outcome \<Rightarrow> World \<Rightarrow> World" where
  "doFetchQuota_settle r w =
     (case r of
        Succeeded snapshot \<Rightarrow> doFetchQuota_success snapshot w
      | Failed error \<Rightarrow> doFetchQuota_catch error w)"

text \<open>What the awaiting caller does once \<open>fetchQuota\<close> has returned.\<close>

definition continue_caller :: "caller \<Rightarrow> World \<Rightarrow> World" where
  "continue_caller c w =
     (case c of
        FromStartPolling intervalMs \<Rightarrow> (setInterval intervalMs w)\<lparr>isPollingTransition := False\<rparr>
      | FromRetryFromError intervalMs \<Rightarrow>
          (if consecutiveErrors w = 0 then setInterval intervalMs w else w)
      | FromTimer \<Rightarrow> w)"

definition resume :: "pending \<Rightarrow> caller \<Rightarrow> outcome \<Rightarrow> World \<Rightarrow> World" where
  "resume p c r w =
     continue_caller c
       (case p of
          InFlight GOOGLE_API \<Rightarrow> doFetchQuota_settle r (fetchQuotaViaGoogleApi_settle r w)
        | InFlight GET_USER_STATUS \<Rightarrow> doFetchQuota_settle r w
        | Rejected error \<Rightarrow> doFetchQuota_settle (Failed error) w
        | ReturnedNull \<Rightarrow> w
        | NotFetched \<Rightarrow> w)"

definition startPolling :: "nat \<Rightarrow> World \<Rightarrow> World" where
  "startPolling intervalMs w =
     (if apiMethod w = GOOGLE_API
         \<and> (authState w = NOT_AUTHENTICATED \<or> authState w = TOKEN_EXPIRED) then
        (let w1 = invoke (authStatusCallback w)
                    (AuthStatusCallback True (authState w = TOKEN_EXPIRED)) w
         in (stopPolling w1)\<lparr>consecutiveErrors := 0, retryCount := 0, isRetrying := False\<rparr>)
      else if isPollingTransition w then w
      else fetchQuota_begin (FromStartPolling intervalMs)
             (stopPolling (w\<lparr>isPollingTransition := True\<rparr>)))"

definition retryFromError :: "nat \<Rightarrow> World \<Rightarrow> World" where
  "retryFromError intervalMs w =
     fetchQuota_begin (FromRetryFromError intervalMs)
       (stopPolling
          (w\<lparr>consecutiveErrors := 0, retryCount := 0, isRetrying := False,
             isFirstAttempt := True\<rparr>))"

definition quickRefresh :: "World \<Rightarrow> World" where
  "quickRefresh w = doFetchQuota_begin FromTimer w"

subsection \<open>The event loop\<close>

text \<open>
  One turn of the event loop: a call from the extension, a timer that fires, or a
  suspended activation that continues (with the outcome of its request, which counts only
  when a request is in flight). A timer that is not armed cannot fire, and an activation
  that does not exist cannot continue: such an event changes nothing.
\<close>

datatype event =
    CallStartPolling nat
  | CallStopPolling
  | CallRetryFromError nat
  | CallQuickRefresh
  | AuthChanges AuthState
  | IntervalFires nat
  | TimeoutFires nat
  | Continues nat outcome

definition step :: "event \<Rightarrow> World \<Rightarrow> World" where
  "step e w =
     (case e of
        CallStartPolling ms \<Rightarrow> startPolling ms w
      | CallStopPolling \<Rightarrow> stopPolling w
      | CallRetryFromError ms \<Rightarrow> retryFromError ms w
      | CallQuickRefresh \<Rightarrow> quickRefresh w
      | AuthChanges a \<Rightarrow> w\<lparr>authState := a\<rparr>
      | IntervalFires h \<Rightarrow>
          (if h \<in> fst ` set (intervals w) then fetchQuota_begin FromTimer w else w)
      | TimeoutFires h \<Rightarrow>
          (if h \<in> fst ` set (timeouts w) then
             fetchQuota_begin FromTimer
               (w\<lparr>timeouts := filter (\<lambda>t. fst t \<noteq> h) (timeouts w), isRetrying := False\<rparr>)
           else w)
      | Continues i r \<Rightarrow>
          (if i < length (suspended w) then
             (case suspended w ! i of (p, c) \<Rightarrow>
                resume p c r (w\<lparr>suspended := take i (suspended w) @ drop (Suc i) (suspended w)\<rparr>))
           else w))"

definition run :: "event list \<Rightarrow> World \<Rightarrow> World" where
  "run es w = fold step es w"

section \<open>Concrete inputs\<close>

text \<open>
  A seven-byte buffer: tag \<open>0x0A\<close> (field 1, length-delimited), then a five-byte varint
  whose 32-bit value is \<open>-6\<close>, then one more byte.
\<close>

definition loop_buffer :: Buffer where
  "loop_buffer = [0x0A, 0xFA, 0xFF, 0xFF, 0xFF, 0x0F, 0x00]"

text \<open>A cloud-mode engine that is polling, with two retries already used.\<close>

definition cloud_polling :: World where
  "cloud_polling =
     (newQuotaService None AUTHENTICATED)
       \<lparr>apiMethod := GOOGLE_API, authStatusCallback := True, staleCallback := True,
        pollingInterval := Some 0, intervals := [(0, 60000)], nextHandle := 1,
        retryCount := 2, suspended := [(InFlight GOOGLE_API, FromTimer)]\<rparr>"



definition timeout_error :: JsError where
  "timeout_error = \<lparr>message = ''Request timeout'', code = Some ''ETIMEDOUT'', needsReauth = False\<rparr>"

text \<open>A stored credential that expires beyond the range of exactly represented integers.\<close>

definition far_token :: TokenData where
  "far_token =
     \<lparr>accessToken = ''ya29.token'', refreshToken = ''1//refresh'',
      expiresAt = 9008899254740996, tokenType = ''Bearer'', scope = ''openid'',
      source = Some Manual\<rparr>"


subsection \<open>Scenarios of the polling engine\<close>

text \<open>The status callbacks one attempt makes before its request, and one failed attempt
  that schedules retry \<open>n\<close> makes in all.\<close>

definition attempt_calls :: "World \<Rightarrow> callback list" where
  "attempt_calls w =
     (if statusCallback w \<and> isFirstAttempt w then [StatusCallback fetching None] else [])"

definition retry_calls :: "World \<Rightarrow> nat \<Rightarrow> callback list" where
  "retry_calls w n =
     attempt_calls w @ (if statusCallback w then [StatusCallback retrying (Some n)] else [])"

text \<open>
  Every fetch fails: \<open>startPolling\<close> and its first fetch fail with \<open>e1\<close>; then three times
  the interval timer (handle \<open>h + 1\<close>) ticks some number of times while the retry is
  pending, the retry timeout fires and the retried fetch fails. \<open>h\<close> is the next free
  timer handle at the start.
\<close>

definition failing_trace ::
  "nat \<Rightarrow> nat \<Rightarrow> nat \<Rightarrow> nat \<Rightarrow> nat \<Rightarrow> JsError \<Rightarrow> JsError \<Rightarrow> JsError \<Rightarrow> JsError \<Rightarrow> event list" where
  "failing_trace h ms k1 k2 k3 e1 e2 e3 e4 =
     [CallStartPolling ms, Continues 0 (Failed e1)]
     @ replicate k1 (IntervalFires (h + 1)) @ [TimeoutFires h, Continues 0 (Failed e2)]
     @ replicate k2 (IntervalFires (h + 1)) @ [TimeoutFires (h + 2), Continues 0 (Failed e3)]
     @ replicate k3 (IntervalFires (h + 1)) @ [TimeoutFires (h + 3), Continues 0 (Failed e4)]"

definition timer_event :: "event \<Rightarrow> bool" where
  "timer_event e = (case e of IntervalFires h \<Rightarrow> True | TimeoutFires h \<Rightarrow> True | _ \<Rightarrow> False)"

text \<open>A local-RPC engine right after construction, with status and error callbacks.\<close>

definition local_engine :: World where
  "local_engine =
     (newQuotaService (Some ''csrf-token'') NOT_AUTHENTICATED)
       \<lparr>statusCallback := True, errorCallback := True\<rparr>"


definition http_error :: JsError where
  "http_error = \<lparr>message = ''HTTP error: 500, detail: (empty response)'', code = None,
                  needsReauth = False\<rparr>"

text \<open>
  Every fetch fails, and the polling interval equals the retry delay. The first failure
  arms the retry timeout (handle 0) and then the interval timer (handle 1), both due after
  5000 ms. The timeout fires and the retried request is in flight when the interval timer
  ticks: the tick starts a second request. Both requests fail and each failure schedules
  a retry (handles 2 and 3); the next tick finds a retry pending. Timeout 2 fires and its
  request fails before timeout 3 is due.
\<close>

definition overlap_trace :: "event list" where
  "overlap_trace =
     [CallStartPolling 5000, Continues 0 (Failed http_error),
      TimeoutFires 0, IntervalFires 1,
      Continues 0 (Failed http_error), Continues 0 (Failed http_error),
      IntervalFires 1,
      TimeoutFires 2, Continues 0 (Failed http_error)]"

section \<open>Google auth service: the login guards\<close>

text \<open>
  The \<open>GoogleAuthService\<close> object as far as the two login operations use it: the state of
  the machine, the last error, whether a callback server (the OAuth listener) is held, how
  many callback servers have been created and how many token requests sent, and the states
  broadcast to the listeners by \<open>setState\<close>.
\<close>

record GoogleAuthService =
  currentState :: AuthState
  lastError :: "string option"
  callbackServer :: bool
  serversCreated :: nat
  tokenRequests :: nat
  notified :: "AuthState list"

definition setState :: "AuthState \<Rightarrow> GoogleAuthService \<Rightarrow> GoogleAuthService" where
  "setState state svc = svc\<lparr>currentState := state, notified := notified svc @ [state]\<rparr>"

text \<open>
  \<open>login()\<close> up to its first \<open>await\<close>: \<open>Some False\<close> is the immediate \<open>return false\<close>;
  \<open>None\<close> means the flow is under way (state set, callback server created and being
  started).
\<close>

definition login_begin :: "GoogleAuthService \<Rightarrow> bool option \<times> GoogleAuthService" where
  "login_begin svc =
     (if currentState svc = AUTHENTICATING then (Some False, svc)
      else (None, (setState AUTHENTICATING svc)
                    \<lparr>callbackServer := True, serversCreated := serversCreated svc + 1\<rparr>))"

text \<open>
  The rest of \<open>login()\<close>: the flow succeeded (token exchanged and saved) or threw with a
  message; the \<open>finally\<close> block stops and drops the callback server.
\<close>

definition login_finish :: "string option \<Rightarrow> GoogleAuthService \<Rightarrow> bool \<times> GoogleAuthService" where
  "login_finish failure svc =
     (case failure of
        None \<Rightarrow> (True, (setState AUTHENTICATED svc)\<lparr>callbackServer := False\<rparr>)
      | Some errorMessage \<Rightarrow>
          (False, (setState ERROR (svc\<lparr>lastError := Some errorMessage\<rparr>))
                    \<lparr>callbackServer := False\<rparr>))"

text \<open>\<open>loginWithRefreshToken(refreshToken)\<close> up to its \<open>await\<close> of the token request.\<close>

definition loginWithRefreshToken_begin ::
  "string \<Rightarrow> GoogleAuthService \<Rightarrow> bool option \<times> GoogleAuthService" where
  "loginWithRefreshToken_begin importedToken svc =
     (if currentState svc = AUTHENTICATING \<or> currentState svc = REFRESHING then (Some False, svc)
      else (None, (setState REFRESHING svc)\<lparr>tokenRequests := tokenRequests svc + 1\<rparr>))"

definition loginWithRefreshToken_finish ::
  "string option \<Rightarrow> GoogleAuthService \<Rightarrow> bool \<times> GoogleAuthService" where
  "loginWithRefreshToken_finish failure svc =
     (case failure of
        None \<Rightarrow> (True, setState AUTHENTICATED svc)
      | Some errorMessage \<Rightarrow> (False, setState ERROR (svc\<lparr>lastError := Some errorMessage\<rparr>)))"

text \<open>A service in the middle of a token refresh, and one in the middle of a login.\<close>

definition refreshing_service :: GoogleAuthService where
  "refreshing_service =
     \<lparr>currentState = REFRESHING, lastError = None, callbackServer = False,
      serversCreated = 0, tokenRequests = 1, notified = [AUTHENTICATED, REFRESHING]\<rparr>"

definition authenticating_service :: GoogleAuthService where
  "authenticating_service =
     \<lparr>currentState = AUTHENTICATING, lastError = None, callbackServer = True,
      serversCreated = 1, tokenRequests = 0, notified = [NOT_AUTHENTICATED, AUTHENTICATING]\<rparr>"

section \<open>The protobuf wire format\<close>

text \<open>
  The encoding the scanner is meant to read, written down to state what it extracts: a
  message is a sequence of fields, a field is a tag varint \<open>fieldNumber << 3 | wireType\<close>
  followed by a varint (wire type 0), eight bytes (1), a length varint and that many bytes
  (2), or four bytes (5). A varint carries seven bits per byte, low bits first, with the
  high bit set on every byte but the last.
\<close>

fun varint :: "nat \<Rightarrow> Buffer" where
  "varint n =
     (if n < 128 then [of_nat n] else (of_nat (n mod 128) OR 0x80) # varint (n div 128))"

declare varint.simps [simp del]

datatype wire_value = Varint nat | Fixed64 Buffer | LengthDelimited Buffer | Fixed32 Buffer

fun wire_type :: "wire_value \<Rightarrow> nat" where
  "wire_type (Varint n) = 0"
| "wire_type (Fixed64 b) = 1"
| "wire_type (LengthDelimited b) = 2"
| "wire_type (Fixed32 b) = 5"

fun encode_value :: "wire_value \<Rightarrow> Buffer" where
  "encode_value (Varint n) = varint n"
| "encode_value (Fixed64 b) = b"
| "encode_value (LengthDelimited b) = varint (length b) @ b"
| "encode_value (Fixed32 b) = b"

definition encode_field :: "nat \<times> wire_value \<Rightarrow> Buffer" where
  "encode_field f = varint (fst f * 8 + wire_type (snd f)) @ encode_value (snd f)"

definition encode_message :: "(nat \<times> wire_value) list \<Rightarrow> Buffer" where
  "encode_message fs = concat (map encode_field fs)"

text \<open>
  A field the scanner's 32-bit arithmetic represents exactly: the tag and the length are
  below \<open>2^31\<close>, and the fixed-width values have their width.
\<close>

fun well_formed :: "nat \<times> wire_value \<Rightarrow> bool" where
  "well_formed (num, Varint n) = (num < 2 ^ 28)"
| "well_formed (num, Fixed64 b) = (num < 2 ^ 28 \<and> length b = 8)"
| "well_formed (num, LengthDelimited b) = (num < 2 ^ 28 \<and> length b < 2 ^ 31)"
| "well_formed (num, Fixed32 b) = (num < 2 ^ 28 \<and> length b = 4)"

text \<open>A length-delimited field with number \<open>k\<close>: what \<open>findProtobufField(buffer, k)\<close> looks for.\<close>

fun is_target :: "nat \<Rightarrow> nat \<times> wire_value \<Rightarrow> bool" where
  "is_target k (num, LengthDelimited b) = (num = k)"
| "is_target k (num, v) = False"

text \<open>
  The synthetic buffer of the extractor's use: outer field 6 wrapping an embedded message
  whose field 3 holds the token bytes.
\<close>

definition token_message :: "Buffer \<Rightarrow> Buffer" where
  "token_message token =
     encode_message [(6, LengthDelimited (encode_message [(3, LengthDelimited token)]))]"

text \<open>The bytes of the ASCII string "sample-refresh-token".\<close>

definition sample_token :: Buffer where
  "sample_token =
     [0x73, 0x61, 0x6D, 0x70, 0x6C, 0x65, 0x2D, 0x72, 0x65, 0x66, 0x72, 0x65, 0x73, 0x68,
      0x2D, 0x74, 0x6F, 0x6B, 0x65, 0x6E]"

text \<open>\<open>toString('utf-8')\<close> on ASCII bytes: one character per byte.\<close>

definition ascii_toString :: "Buffer \<Rightarrow> string" where
  "ascii_toString bytes = map (\<lambda>b. char_of (unat b)) bytes"

section \<open>Theorems\<close>

lemma digit_value_digit_char: "d < 10 \<Longrightarrow> digit_value (digit_char d) = d"
proof -
  assume "d < 10"
  then consider "d = 0" | "d = 1" | "d = 2" | "d = 3" | "d = 4" | "d = 5" | "d = 6"
    | "d = 7" | "d = 8" | "d = 9" by atomize_elim arith
  then show ?thesis
    by cases (simp_all add: digit_value_def digit_char_def)
qed

lemma digit_char_range: "digit_char d \<in> set ''0123456789''"
  by (simp add: digit_char_def)

lemma digit_char_zero: "0 < d \<Longrightarrow> d < 10 \<Longrightarrow> digit_char d \<noteq> CHR ''0''"
proof -
  assume "0 < d" "d < 10"
  then consider "d = 1" | "d = 2" | "d = 3" | "d = 4" | "d = 5" | "d = 6"
    | "d = 7" | "d = 8" | "d = 9" by atomize_elim arith
  then show ?thesis
    by cases (simp_all add: digit_char_def)
qed

lemma decimal_value_snoc: "decimal_value (s @ [c]) = 10 * decimal_value s + digit_value c"
  by (simp add: decimal_value_def)

lemma decimal_value_nat_to_string: "decimal_value (nat_to_string n) = n"
proof (induction n rule: nat_to_string.induct)
  case (1 n)
  show ?case
  proof (cases "n < 10")
    case True
    then show ?thesis
      by (subst nat_to_string.simps) (simp add: decimal_value_def digit_value_digit_char)
  next
    case False
    have "decimal_value (nat_to_string n)
        = 10 * decimal_value (nat_to_string (n div 10)) + digit_value (digit_char (n mod 10))"
      using False by (subst nat_to_string.simps) (simp add: decimal_value_snoc)
    also have "\<dots> = 10 * (n div 10) + n mod 10"
      using 1 [OF False] by (simp add: digit_value_digit_char)
    finally show ?thesis by simp
  qed
qed

lemma nat_to_string_digits: "set (nat_to_string n) \<subseteq> set ''0123456789''"
proof (induction n rule: nat_to_string.induct)
  case (1 n)
  show ?case
  proof (cases "n < 10")
    case True
    then show ?thesis
      using digit_char_range [of n] by (subst nat_to_string.simps) simp
  next
    case False
    then show ?thesis
      using 1 [OF False] digit_char_range [of "n mod 10"]
      by (subst nat_to_string.simps) simp
  qed
qed

lemma nat_to_string_nonempty: "nat_to_string n \<noteq> []"
  by (subst nat_to_string.simps) simp

lemma nat_to_string_no_leading_zero: "0 < n \<Longrightarrow> hd (nat_to_string n) \<noteq> CHR ''0''"
proof (induction n rule: nat_to_string.induct)
  case (1 n)
  show ?case
  proof (cases "n < 10")
    case True
    then show ?thesis
      using digit_char_zero [of n] 1(2) by (subst nat_to_string.simps) simp
  next
    case False
    then have "0 < n div 10" by simp
    from 1(1) [OF False this] show ?thesis
      using False by (subst nat_to_string.simps) (simp add: nat_to_string_nonempty)
  qed
qed

lemma nat_to_string_183: "nat_to_string 2 = ''2'' \<and> nat_to_string 3 = ''3''
  \<and> nat_to_string 5 = ''5'' \<and> nat_to_string 12 = ''12''"
  by (simp add: nat_to_string.simps digit_char_def)

text \<open>
  C9 (as the code has it). The formatter returns "Expired" for every remaining time that is
  zero or negative. For a positive remaining time of \<open>ms\<close> milliseconds (a whole number
  below \<open>2 ^ 53\<close>) it prints the largest applicable pair of units, the numbers in decimal:
  below one minute the whole seconds, "\<open>s\<close>s from now"; from one minute and below one hour
  the minutes and the seconds left over, separated by a blank, "\<open>m\<close>m \<open>s\<close>s from now"; from
  one hour and below one day the hours and the minutes left over, separated by a blank,
  "\<open>h\<close>h \<open>m\<close>m from now"; from one day on the days and the hours left over, with no
  blank, "\<open>d\<close>d\<open>h\<close>h from now". So exactly two days and three hours give "2d3h from now"
  and five minutes twelve seconds give "5m 12s from now". The decimal string of a
  non-negative number consists of digits only, denotes that number, and has no leading
  zero unless the number is 0.
\<close>

theorem formatTimeUntilReset_spec:
  "(ms \<le> 0 \<longrightarrow> formatTimeUntilReset ms = ''Expired'')
   \<and> (0 < ms \<and> ms < 60000 \<longrightarrow>
        formatTimeUntilReset ms = number_to_string (ms div 1000) @ ''s from now'')
   \<and> (60000 \<le> ms \<and> ms < 3600000 \<longrightarrow>
        formatTimeUntilReset ms
          = number_to_string (ms div 60000) @ ''m ''
            @ number_to_string (ms div 1000 mod 60) @ ''s from now'')
   \<and> (3600000 \<le> ms \<and> ms < 86400000 \<longrightarrow>
        formatTimeUntilReset ms
          = number_to_string (ms div 3600000) @ ''h ''
            @ number_to_string (ms div 60000 mod 60) @ ''m from now'')
   \<and> (86400000 \<le> ms \<and> ms < 2 ^ 53 \<longrightarrow>
        formatTimeUntilReset ms
          = number_to_string (ms div 86400000) @ ''d''
            @ number_to_string (ms div 3600000 mod 24) @ ''h from now'')
   \<and> (0 \<le> i \<longrightarrow>
        decimal_value (number_to_string i) = nat i
        \<and> set (number_to_string i) \<subseteq> set ''0123456789''
        \<and> number_to_string i \<noteq> []
        \<and> (0 < i \<longrightarrow> hd (number_to_string i) \<noteq> CHR ''0''))
   \<and> formatTimeUntilReset ((2 * 86400 + 3 * 3600) * 1000) = ''2d3h from now''
   \<and> formatTimeUntilReset ((5 * 60 + 12) * 1000) = ''5m 12s from now''"
proof -
  have s: "ms div 1000 div 60 = ms div 60000" "ms div 60000 div 60 = ms div 3600000"
    "ms div 3600000 div 24 = ms div 86400000"
    by (simp_all add: div_mult2_eq [symmetric])
  have p: "0 < ms div 60000 \<longleftrightarrow> 60000 \<le> ms" "0 < ms div 3600000 \<longleftrightarrow> 3600000 \<le> ms"
    "0 < ms div 86400000 \<longleftrightarrow> 86400000 \<le> ms"
    by (simp_all add: pos_imp_zdiv_pos_iff)
  have e: "ms \<le> 0 \<longrightarrow> formatTimeUntilReset ms = ''Expired''"
    by (simp add: formatTimeUntilReset_def)
  have a: "0 < ms \<and> ms < 60000 \<longrightarrow>
        formatTimeUntilReset ms = number_to_string (ms div 1000) @ ''s from now''"
    by (simp add: formatTimeUntilReset_def Let_def s p)
  have b: "60000 \<le> ms \<and> ms < 3600000 \<longrightarrow>
        formatTimeUntilReset ms
          = number_to_string (ms div 60000) @ ''m ''
            @ number_to_string (ms div 1000 mod 60) @ ''s from now''"
    by (simp add: formatTimeUntilReset_def Let_def s p)
  have c: "3600000 \<le> ms \<and> ms < 86400000 \<longrightarrow>
        formatTimeUntilReset ms
          = number_to_string (ms div 3600000) @ ''h ''
            @ number_to_string (ms div 60000 mod 60) @ ''m from now''"
    by (simp add: formatTimeUntilReset_def Let_def s p)
  have d: "86400000 \<le> ms \<and> ms < 2 ^ 53 \<longrightarrow>
        formatTimeUntilReset ms
          = number_to_string (ms div 86400000) @ ''d''
            @ number_to_string (ms div 3600000 mod 24) @ ''h from now''"
    by (simp add: formatTimeUntilReset_def Let_def s p)
  have n: "0 \<le> i \<longrightarrow>
        decimal_value (number_to_string i) = nat i
        \<and> set (number_to_string i) \<subseteq> set ''0123456789''
        \<and> number_to_string i \<noteq> []
        \<and> (0 < i \<longrightarrow> hd (number_to_string i) \<noteq> CHR ''0'')"
    using nat_to_string_digits [of "nat i"] nat_to_string_no_leading_zero [of "nat i"]
    by (simp add: number_to_string_def decimal_value_nat_to_string nat_to_string_nonempty)
  have x: "formatTimeUntilReset ((2 * 86400 + 3 * 3600) * 1000) = ''2d3h from now''"
    by (simp add: formatTimeUntilReset_def Let_def number_to_string_def nat_to_string_183)
  have y: "formatTimeUntilReset ((5 * 60 + 12) * 1000) = ''5m 12s from now''"
    by (simp add: formatTimeUntilReset_def Let_def number_to_string_def nat_to_string_183)
  from e a b c d n x y show ?thesis by blast
qed

theorem formatTimeUntilReset_spec_witness:
  "formatTimeUntilReset (- 1000) = ''Expired''
   \<and> formatTimeUntilReset 59999 = ''59s from now''
   \<and> formatTimeUntilReset 3599999 = ''59m 59s from now''
   \<and> formatTimeUntilReset 3600000 = ''1h 0m from now''
   \<and> formatTimeUntilReset 86400000 = ''1d0h from now''
   \<and> decimal_value (number_to_string 59) = 59"
proof -
  have n: "number_to_string 59 = ''59''" "number_to_string 1 = ''1''"
    "number_to_string 0 = ''0''"
    by (simp_all add: number_to_string_def nat_to_string.simps digit_char_def)
  show ?thesis
    using formatTimeUntilReset_spec [of "- 1000" 59] formatTimeUntilReset_spec [of 59999 59]
      formatTimeUntilReset_spec [of 3599999 59] formatTimeUntilReset_spec [of 3600000 59]
      formatTimeUntilReset_spec [of 86400000 59]
    by (simp add: n)
qed

theorem formatTimeUntilReset_minutes_counterexample:
  "formatTimeUntilReset ((5 * 60 + 12) * 1000) \<noteq> ''5m12s from now''"
  by (simp add: formatTimeUntilReset_def Let_def number_to_string_def nat_to_string_183)

lemma round_to_double_safe: "\<bar>x\<bar> < 2 ^ 53 \<Longrightarrow> round_to_double x = x"
proof -
  assume a: "\<bar>x\<bar> < 2 ^ 53"
  then have "excess_bits \<bar>x\<bar> = 0" by (subst excess_bits.simps) simp
  then show ?thesis by (simp add: round_to_double_def Let_def mult_sgn_abs)
qed

lemma excess_bits_sample: "excess_bits 9008899254740995 = 1"
proof -
  have "excess_bits 4504449627370497 = 0" by (subst excess_bits.simps) simp
  then show ?thesis by (subst excess_bits.simps) simp
qed

text \<open>
  C5 (as the code has it). When \<open>now\<close> and \<open>now + bufferMs\<close> are integers that a double
  holds exactly (magnitude below \<open>2 ^ 53\<close>), the expiry check on an initialised storage
  answers true exactly when no credential is stored or \<open>now + bufferMs \<ge> expiresAt\<close>,
  for every buffer (so for every buffer \<open>\<ge> 0\<close>); the default buffer is 300000 ms; and with
  buffer 0 and \<open>expiresAt = now\<close> the credential is reported expired.
\<close>

theorem isTokenExpired_iff:
  assumes "\<bar>now\<bar> < 2 ^ 53" and "\<bar>now + bufferMs\<bar> < 2 ^ 53"
  shows "isTokenExpired now (Some bufferMs) \<lparr>secretStorage = Some s\<rparr>
     = Inr (case s of StoredToken t \<Rightarrow> now + bufferMs \<ge> expiresAt t | _ \<Rightarrow> True)
   \<and> isTokenExpired now None ts = isTokenExpired now (Some 300000) ts
   \<and> isTokenExpired now (Some 0) \<lparr>secretStorage = Some (StoredToken (t\<lparr>expiresAt := now\<rparr>))\<rparr>
       = Inr True"
  using assms round_to_double_safe [of "now + bufferMs"] round_to_double_safe [of now]
  by (cases s)
    (simp_all add: isTokenExpired_def getToken_def ensureInitialized_def DEFAULT_BUFFER_MS_def
      js_add_def)

theorem isTokenExpired_iff_witness:
  "\<bar>1700000000000::int\<bar> < 2 ^ 53 \<and> \<bar>1700000000000 + 0::int\<bar> < 2 ^ 53
   \<and> isTokenExpired 1700000000000 (Some 0)
        \<lparr>secretStorage = Some (StoredToken (far_token\<lparr>expiresAt := 1700000000000\<rparr>))\<rparr>
       = Inr True
   \<and> isTokenExpired 1700000000000 (Some 0) \<lparr>secretStorage = Some NoEntry\<rparr> = Inr True"
proof -
  have a: "\<bar>1700000000000::int\<bar> < 2 ^ 53" and b: "\<bar>1700000000000 + 0::int\<bar> < 2 ^ 53"
    by simp_all
  from isTokenExpired_iff [OF a b, of NoEntry _ far_token] a b show ?thesis by simp
qed

text \<open>
  Outside that range the sum is rounded: with \<open>now = 1700000000003\<close> and
  \<open>bufferMs = 2 ^ 53\<close> the exact sum 9008899254740995 is rounded to 9008899254740996, and a
  credential expiring at 9008899254740996 is reported expired although
  \<open>now + bufferMs < expiresAt\<close>.
\<close>

theorem isTokenExpired_rounding_counterexample:
  "(0::int) \<le> 9007199254740992
   \<and> isTokenExpired 1700000000003 (Some 9007199254740992)
        \<lparr>secretStorage = Some (StoredToken far_token)\<rparr> = Inr True
   \<and> \<not> (1700000000003 + 9007199254740992 \<ge> expiresAt far_token)"
  by (simp add: isTokenExpired_def getToken_def ensureInitialized_def js_add_def
      round_to_double_def excess_bits_sample far_token_def Let_def)

subsection \<open>The protobuf scanner\<close>

text \<open>
  The varint reader never moves the position back, and consumes at least one byte when
  the position is below the end of the buffer.
\<close>

lemma readVarint_loop_monotone: "pos \<le> snd (readVarint_loop buffer pos result shift)"
proof (induction buffer pos result shift rule: readVarint_loop.induct)
  case (1 buffer pos result shift)
  show ?case
  proof (cases "pos < int (length buffer)")
    case False
    then show ?thesis by (subst readVarint_loop.simps) simp
  next
    case True
    show ?thesis
    proof (cases "buffer_at buffer pos")
      case None
      with True show ?thesis by (subst readVarint_loop.simps) simp
    next
      case (Some byte)
      show ?thesis
      proof (cases "byte AND 0x80 = 0")
        case z: True
        with True Some show ?thesis by (subst readVarint_loop.simps) (simp add: Let_def)
      next
        case nz: False
        from "1.IH" [OF True Some refl nz]
        have "pos + 1 \<le> snd (readVarint_loop buffer (pos + 1)
                 (result OR push_bit (shift mod 32) (ucast (byte AND 0x7f))) (shift + 7))" .
        with True Some nz show ?thesis
          by (subst readVarint_loop.simps) (simp add: Let_def)
      qed
    qed
  qed
qed

lemma readVarint_loop_advances:
  "pos < int (length buffer) \<Longrightarrow> pos < snd (readVarint_loop buffer pos result shift)"
proof -
  assume b: "pos < int (length buffer)"
  show ?thesis
  proof (cases "buffer_at buffer pos")
    case None
    with b show ?thesis by (subst readVarint_loop.simps) simp
  next
    case (Some byte)
    have "pos + 1 \<le> snd (readVarint_loop buffer (pos + 1)
             (result OR push_bit (shift mod 32) (ucast (byte AND 0x7f))) (shift + 7))"
      by (rule readVarint_loop_monotone)
    with b Some show ?thesis
      by (subst readVarint_loop.simps) (simp add: Let_def)
  qed
qed

lemma readVarint_advances:
  "pos < int (length buffer) \<Longrightarrow> pos < snd (readVarint buffer pos)"
  using readVarint_loop_advances [of pos buffer 0 0]
  by (cases "readVarint_loop buffer pos 0 0") (simp add: readVarint_def)

lemma readVarint_loop_buffer_0: "readVarint loop_buffer 0 = (10, 1)"
  by (simp add: loop_buffer_def readVarint_def readVarint_loop.simps buffer_at_def)

lemma readVarint_loop_buffer_1: "readVarint loop_buffer 1 = (- 6, 6)"
  by (simp add: loop_buffer_def readVarint_def readVarint_loop.simps buffer_at_def)

lemma length_loop_buffer: "length loop_buffer = 7"
  by (simp add: loop_buffer_def)

text \<open>
  The scan of \<open>loop_buffer\<close> for field 6 never returns from position 0: one iteration
  reads the tag at 0, the length \<open>-6\<close> at 1 to 5, and sets the position back to
  \<open>6 + (-6) = 0\<close>.
\<close>

lemma scan_returns_not_at_loop_buffer:
  "findProtobufField_loop b fn p = Some r \<Longrightarrow> (b, fn, p) \<noteq> (loop_buffer, 6, 0)"
proof (rule findProtobufField_loop.raw_induct
    [where P = "\<lambda>b fn p r. (b, fn, p) \<noteq> (loop_buffer, 6, 0)"])
  fix f :: "Buffer \<Rightarrow> int \<Rightarrow> int \<Rightarrow> Buffer option option" and buffer fieldNumber pos y
  assume IH: "\<And>b fn p r. f b fn p = Some r \<Longrightarrow> (b, fn, p) \<noteq> (loop_buffer, 6, 0)"
    and body: "(if pos < int (length buffer) then
        (case readVarint buffer pos of (tag, tagEndPos) \<Rightarrow>
           if tagEndPos \<ge> int (length buffer) then Some None
           else
             let wireType = tag AND 7;
                 field = drop_bit 3 tag
             in if wireType = 2 then
                  (case readVarint buffer tagEndPos of (len, lenEndPos) \<Rightarrow>
                     if field = fieldNumber then Some (Some (slice buffer lenEndPos (lenEndPos + len)))
                     else f buffer fieldNumber (lenEndPos + len))
                else if wireType = 0 then
                  f buffer fieldNumber (snd (readVarint buffer tagEndPos))
                else if wireType = 1 then f buffer fieldNumber (tagEndPos + 8)
                else if wireType = 5 then f buffer fieldNumber (tagEndPos + 4)
                else Some None)
      else Some None) = Some y"
  show "(buffer, fieldNumber, pos) \<noteq> (loop_buffer, 6, 0)"
  proof
    assume "(buffer, fieldNumber, pos) = (loop_buffer, 6, 0)"
    with body have "f loop_buffer 6 0 = Some y"
      by (simp add: readVarint_loop_buffer_0 readVarint_loop_buffer_1 length_loop_buffer)
    from IH [OF this] show False by simp
  qed
qed (assumption)

text \<open>
  C10 (the code at the failing input). On the buffer \<open>0A FA FF FF FF 0F 00\<close> the scanner
  for field 6 does not terminate, and so neither does the token parser: the length read
  by \<open>readVarint\<close> is a signed 32-bit value, here \<open>-6\<close>, and \<open>pos += length\<close> moves the read
  position back to where the iteration started.
\<close>

theorem findProtobufField_diverges:
  "readVarint loop_buffer 1 = (- 6, 6)
   \<and> findProtobufField loop_buffer 6 = None
   \<and> parseProtobufForRefreshToken toString loop_buffer = None"
proof -
  have "findProtobufField_loop loop_buffer 6 0 = None"
    using scan_returns_not_at_loop_buffer [of loop_buffer 6 0]
    by (cases "findProtobufField_loop loop_buffer 6 0") auto
  then show ?thesis
    by (simp add: findProtobufField_def parseProtobufForRefreshToken_def
        readVarint_loop_buffer_1)
qed

subsection \<open>The polling engine: classified failures in cloud mode\<close>

lemmas engine_defs =
  step_def startPolling_def retryFromError_def quickRefresh_def fetchQuota_begin_def
  doFetchQuota_begin_def makeRequest_def suspend_def resume_def continue_caller_def
  doFetchQuota_settle_def doFetchQuota_catch_def stopPolling_def clearInterval_def
  setInterval_def setTimeout_def invoke_def MAX_RETRY_COUNT_def RETRY_DELAY_MS_def Let_def

lemma run_append: "run (xs @ ys) w = run ys (run xs w)"
  by (simp add: run_def)

lemma run_Cons: "run (x # xs) w = run xs (step x w)"
  by (simp add: run_def)

lemma run_Nil: "run [] w = w"
  by (simp add: run_def)


lemma timeout_error_class: "\<not> isAuthError timeout_error \<and> isNetworkOrTimeoutError timeout_error"
  by (simp add: isAuthError_def isNetworkOrTimeoutError_def timeout_error_def toLowerCase_def
      toLowerChar_def)





text \<open>
  C3 (as the code has it). In cloud mode, when the \<open>catch\<close> block receives a
  network/timeout-classified error that is not authentication-classified, the stale
  callback (if registered) is called with \<open>true\<close>, the retry counter is reset to 0 (so not
  incremented), \<open>consecutiveErrors\<close> is incremented and \<open>isFirstAttempt\<close> is cleared;
  everything else, the armed interval timer and the pending timeouts included, is as
  before.
\<close>

theorem network_failure_marks_stale:
  assumes "apiMethod w = GOOGLE_API" and "\<not> isAuthError e" and "isNetworkOrTimeoutError e"
  shows "doFetchQuota_catch e w =
      (invoke (staleCallback w) (StaleCallback True) w)
        \<lparr>consecutiveErrors := consecutiveErrors w + 1, retryCount := 0, isFirstAttempt := False\<rparr>"
  using assms by (simp add: doFetchQuota_catch_def invoke_def Let_def)

theorem network_failure_marks_stale_witness:
  "apiMethod cloud_polling = GOOGLE_API \<and> \<not> isAuthError timeout_error
   \<and> isNetworkOrTimeoutError timeout_error
   \<and> pollingInterval (doFetchQuota_catch timeout_error cloud_polling) = Some 0
   \<and> intervals (doFetchQuota_catch timeout_error cloud_polling) = [(0, 60000)]
   \<and> calls (doFetchQuota_catch timeout_error cloud_polling) = [StaleCallback True]
   \<and> retryCount (doFetchQuota_catch timeout_error cloud_polling) = 0"
proof -
  have m: "apiMethod cloud_polling = GOOGLE_API"
    by (simp add: cloud_polling_def newQuotaService_def)
  from timeout_error_class have a: "\<not> isAuthError timeout_error"
    and n: "isNetworkOrTimeoutError timeout_error" by simp_all
  show ?thesis
    using network_failure_marks_stale [OF m a n] m a n
    by (simp add: cloud_polling_def newQuotaService_def invoke_def)
qed

theorem network_failure_frame_counterexample:
  "apiMethod cloud_polling = GOOGLE_API
   \<and> isNetworkOrTimeoutError timeout_error
   \<and> consecutiveErrors cloud_polling = 0
   \<and> consecutiveErrors (doFetchQuota_catch timeout_error cloud_polling) = 1
   \<and> isFirstAttempt cloud_polling = True
   \<and> isFirstAttempt (doFetchQuota_catch timeout_error cloud_polling) = False"
  using timeout_error_class
  by (simp add: doFetchQuota_catch_def cloud_polling_def newQuotaService_def invoke_def Let_def)

subsection \<open>The polling engine: retries, start and the CSRF token\<close>

lemma tick_suppressed: "isRetrying w \<Longrightarrow> step (IntervalFires h) w = w"
  by (simp add: step_def fetchQuota_begin_def)

lemma ticks_suppressed: "isRetrying w \<Longrightarrow> run (replicate k (IntervalFires h)) w = w"
  by (induction k) (simp_all add: run_Nil run_Cons tick_suppressed)

lemma first_failure:
  assumes "apiMethod w = GET_USER_STATUS" "csrfToken w = Some tok" "tok \<noteq> []"
    "retryCount w = 0" "\<not> isRetrying w" "\<not> isPollingTransition w"
    "suspended w = []" "timeouts w = []" "intervals w = []" "pollingInterval w = None"
  shows "run [CallStartPolling ms, Continues 0 (Failed e)] w =
     w\<lparr>consecutiveErrors := consecutiveErrors w + 1, retryCount := 1, isRetrying := True,
       pollingInterval := Some (nextHandle w + 1),
       intervals := [(nextHandle w + 1, ms)],
       timeouts := [(nextHandle w, 5000)],
       scheduled := scheduled w @ [(nextHandle w, 5000)],
       nextHandle := nextHandle w + 2,
       calls := calls w @ retry_calls w 1,
       requests := requests w @ [GET_USER_STATUS]\<rparr>"
  using assms
  by (simp add: run_Cons run_Nil engine_defs retry_calls_def attempt_calls_def)

lemma retry_failure:
  assumes "apiMethod w = GET_USER_STATUS" "csrfToken w = Some tok" "tok \<noteq> []"
    "retryCount w < 3" "timeouts w = [(ht, d)]" "suspended w = []"
  shows "run [TimeoutFires ht, Continues 0 (Failed e)] w =
     w\<lparr>consecutiveErrors := consecutiveErrors w + 1, retryCount := retryCount w + 1,
       isRetrying := True,
       timeouts := [(nextHandle w, 5000)],
       scheduled := scheduled w @ [(nextHandle w, 5000)],
       nextHandle := nextHandle w + 1,
       calls := calls w @ retry_calls w (retryCount w + 1),
       requests := requests w @ [GET_USER_STATUS]\<rparr>"
  using assms
  by (simp add: run_Cons run_Nil engine_defs retry_calls_def attempt_calls_def)

lemma last_failure:
  assumes "apiMethod w = GET_USER_STATUS" "csrfToken w = Some tok" "tok \<noteq> []"
    "retryCount w = 3" "timeouts w = [(ht, d)]" "suspended w = []"
    "pollingInterval w = Some hi" "intervals w = [(hi, ms)]"
  shows "run [TimeoutFires ht, Continues 0 (Failed e)] w =
     w\<lparr>consecutiveErrors := consecutiveErrors w + 1,
       isRetrying := False, pollingInterval := None, intervals := [],
       timeouts := [],
       calls := calls w @ attempt_calls w @ (if errorCallback w then [ErrorCallback e] else []),
       requests := requests w @ [GET_USER_STATUS]\<rparr>"
  using assms
  by (simp add: run_Cons run_Nil engine_defs retry_calls_def attempt_calls_def)

lemma timer_event_idle:
  assumes "intervals w = []" "timeouts w = []" "timer_event e"
  shows "step e w = w"
  using assms by (cases e) (simp_all add: timer_event_def step_def)

lemma timer_events_idle:
  assumes "intervals w = []" "timeouts w = []" "list_all timer_event es"
  shows "run es w = w"
  using assms by (induction es) (simp_all add: run_Nil run_Cons timer_event_idle)

lemma retryFromError_requests:
  assumes "apiMethod w = GET_USER_STATUS" "csrfToken w = Some tok" "tok \<noteq> []"
  shows "requests (step (CallRetryFromError ms) w) = requests w @ [GET_USER_STATUS]"
  using assms by (cases "pollingInterval w") (simp_all add: engine_defs)

text \<open>
  C1 (as the code has it). A local-RPC engine that is idle, with a CSRF token and an unused
  retry budget, is started and every fetch fails, whatever the errors are, and every
  request settles before the next timer event: the interval timer ticks, any number of
  times, only while a retry is pending. Then exactly three retries are scheduled, each
  with a delay of 5000 ms; the ticks during a pending retry start no fetch (four requests
  are sent in all); after the fourth failure the interval timer is cleared, the error
  callback (if registered) receives the last error, nothing is armed or suspended, so no
  timer event changes anything any more; and \<open>retryFromError\<close> fetches again.
\<close>

theorem retry_budget_exhausted:
  assumes local: "apiMethod w = GET_USER_STATUS"
    and csrf: "csrfToken w = Some tok" "tok \<noteq> []"
    and fresh: "retryCount w = 0" "\<not> isRetrying w" "\<not> isPollingTransition w"
    and idle: "suspended w = []" "timeouts w = []" "intervals w = []" "pollingInterval w = None"
    and w': "w' = run (failing_trace (nextHandle w) ms k1 k2 k3 e1 e2 e3 e4) w"
  shows "scheduled w' = scheduled w @ [(nextHandle w, 5000), (nextHandle w + 2, 5000),
                                        (nextHandle w + 3, 5000)]
     \<and> requests w' = requests w @ replicate 4 GET_USER_STATUS
     \<and> calls w' = calls w @ retry_calls w 1 @ retry_calls w 2 @ retry_calls w 3
                    @ attempt_calls w @ (if errorCallback w then [ErrorCallback e4] else [])
     \<and> pollingInterval w' = None \<and> intervals w' = [] \<and> timeouts w' = []
     \<and> suspended w' = [] \<and> isRetrying w' = False \<and> retryCount w' = 3
     \<and> (\<forall>es. list_all timer_event es \<longrightarrow> run es w' = w')
     \<and> requests (step (CallRetryFromError ms') w') = requests w' @ [GET_USER_STATUS]"
proof -
  define h where "h = nextHandle w"
  define wa where "wa = run [CallStartPolling ms, Continues 0 (Failed e1)] w"
  define wb where "wb = run [TimeoutFires h, Continues 0 (Failed e2)] wa"
  define wc where "wc = run [TimeoutFires (h + 2), Continues 0 (Failed e3)] wb"
  define wd where "wd = run [TimeoutFires (h + 3), Continues 0 (Failed e4)] wc"
  note a = first_failure [OF local csrf fresh idle, of ms e1, folded wa_def h_def]
  have fa: "apiMethod wa = GET_USER_STATUS" "csrfToken wa = Some tok" "retryCount wa = 1"
    "isRetrying wa" "timeouts wa = [(h, 5000)]" "suspended wa = []" "nextHandle wa = h + 2"
    "pollingInterval wa = Some (h + 1)" "intervals wa = [(h + 1, ms)]"
    "scheduled wa = scheduled w @ [(h, 5000)]" "requests wa = requests w @ [GET_USER_STATUS]"
    "calls wa = calls w @ retry_calls w 1" "statusCallback wa = statusCallback w"
    "isFirstAttempt wa = isFirstAttempt w" "errorCallback wa = errorCallback w"
    by (simp_all add: a local csrf idle)
  have ra: "run (replicate k1 (IntervalFires (h + 1))) wa = wa"
    by (rule ticks_suppressed) (rule fa)
  have b: "wb = wa\<lparr>consecutiveErrors := consecutiveErrors wa + 1, retryCount := retryCount wa + 1,
       isRetrying := True, timeouts := [(nextHandle wa, 5000)],
       scheduled := scheduled wa @ [(nextHandle wa, 5000)],
       nextHandle := nextHandle wa + 1,
       calls := calls wa @ retry_calls wa (retryCount wa + 1),
       requests := requests wa @ [GET_USER_STATUS]\<rparr>"
    unfolding wb_def
    by (rule retry_failure [where tok = tok and d = 5000]) (simp_all add: fa csrf)
  have fb: "apiMethod wb = GET_USER_STATUS" "csrfToken wb = Some tok" "retryCount wb = 2"
    "isRetrying wb" "timeouts wb = [(h + 2, 5000)]" "suspended wb = []" "nextHandle wb = h + 3"
    "pollingInterval wb = Some (h + 1)" "intervals wb = [(h + 1, ms)]"
    "scheduled wb = scheduled w @ [(h, 5000), (h + 2, 5000)]"
    "requests wb = requests w @ [GET_USER_STATUS, GET_USER_STATUS]"
    "calls wb = calls w @ retry_calls w 1 @ retry_calls w 2" "statusCallback wb = statusCallback w"
    "isFirstAttempt wb = isFirstAttempt w" "errorCallback wb = errorCallback w"
    by (simp_all add: b fa retry_calls_def attempt_calls_def)
  have rb: "run (replicate k2 (IntervalFires (h + 1))) wb = wb"
    by (rule ticks_suppressed) (rule fb)
  have c: "wc = wb\<lparr>consecutiveErrors := consecutiveErrors wb + 1, retryCount := retryCount wb + 1,
       isRetrying := True, timeouts := [(nextHandle wb, 5000)],
       scheduled := scheduled wb @ [(nextHandle wb, 5000)],
       nextHandle := nextHandle wb + 1,
       calls := calls wb @ retry_calls wb (retryCount wb + 1),
       requests := requests wb @ [GET_USER_STATUS]\<rparr>"
    unfolding wc_def
    by (rule retry_failure [where tok = tok and d = 5000]) (simp_all add: fb csrf)
  have fc: "apiMethod wc = GET_USER_STATUS" "csrfToken wc = Some tok" "retryCount wc = 3"
    "isRetrying wc" "timeouts wc = [(h + 3, 5000)]" "suspended wc = []"
    "pollingInterval wc = Some (h + 1)" "intervals wc = [(h + 1, ms)]"
    "scheduled wc = scheduled w @ [(h, 5000), (h + 2, 5000), (h + 3, 5000)]"
    "requests wc = requests w @ [GET_USER_STATUS, GET_USER_STATUS, GET_USER_STATUS]"
    "calls wc = calls w @ retry_calls w 1 @ retry_calls w 2 @ retry_calls w 3"
    "statusCallback wc = statusCallback w"
    "isFirstAttempt wc = isFirstAttempt w" "errorCallback wc = errorCallback w"
    by (simp_all add: c fb retry_calls_def attempt_calls_def)
  have rc: "run (replicate k3 (IntervalFires (h + 1))) wc = wc"
    by (rule ticks_suppressed) (rule fc)
  have d: "wd = wc\<lparr>consecutiveErrors := consecutiveErrors wc + 1,
       isRetrying := False, pollingInterval := None, intervals := [],
       timeouts := [],
       calls := calls wc @ attempt_calls wc @ (if errorCallback wc then [ErrorCallback e4] else []),
       requests := requests wc @ [GET_USER_STATUS]\<rparr>"
    unfolding wd_def
    by (rule last_failure [where tok = tok and d = 5000 and hi = "h + 1" and ms = ms])
      (simp_all add: fc csrf)
  have fd: "apiMethod wd = GET_USER_STATUS" "csrfToken wd = Some tok" "retryCount wd = 3"
    "isRetrying wd = False" "timeouts wd = []" "suspended wd = []"
    "pollingInterval wd = None" "intervals wd = []"
    "scheduled wd = scheduled w @ [(h, 5000), (h + 2, 5000), (h + 3, 5000)]"
    "requests wd = requests w @ replicate 4 GET_USER_STATUS"
    "calls wd = calls w @ retry_calls w 1 @ retry_calls w 2 @ retry_calls w 3
                  @ attempt_calls w @ (if errorCallback w then [ErrorCallback e4] else [])"
    by (simp_all add: d fc attempt_calls_def numeral_eq_Suc)
  have "w' = run [TimeoutFires (h + 3), Continues 0 (Failed e4)]
               (run (replicate k3 (IntervalFires (h + 1)))
                 (run [TimeoutFires (h + 2), Continues 0 (Failed e3)]
                   (run (replicate k2 (IntervalFires (h + 1)))
                     (run [TimeoutFires h, Continues 0 (Failed e2)]
                       (run (replicate k1 (IntervalFires (h + 1)))
                         (run [CallStartPolling ms, Continues 0 (Failed e1)] w))))))"
    unfolding w' failing_trace_def h_def by (simp only: run_append)
  then have "w' = wd"
    by (simp only: wa_def [symmetric] ra wb_def [symmetric] rb wc_def [symmetric] rc
        wd_def [symmetric])
  have quiet: "\<forall>es. list_all timer_event es \<longrightarrow> run es wd = wd"
    using timer_events_idle [OF fd(8) fd(5)] by blast
  have again: "requests (step (CallRetryFromError ms') wd) = requests wd @ [GET_USER_STATUS]"
    by (rule retryFromError_requests [OF fd(1) fd(2) csrf(2)])
  show ?thesis
    unfolding \<open>w' = wd\<close> h_def [symmetric]
    using fd quiet again by simp
qed

theorem retry_budget_exhausted_witness:
  "apiMethod local_engine = GET_USER_STATUS \<and> retryCount local_engine = 0
   \<and> scheduled (run (failing_trace 0 60000 2 0 1 http_error http_error http_error http_error)
                  local_engine) = [(0, 5000), (2, 5000), (3, 5000)]
   \<and> requests (run (failing_trace 0 60000 2 0 1 http_error http_error http_error http_error)
                  local_engine) = replicate 4 GET_USER_STATUS
   \<and> calls (run (failing_trace 0 60000 2 0 1 http_error http_error http_error http_error)
                  local_engine)
       = [StatusCallback fetching None, StatusCallback retrying (Some 1),
          StatusCallback fetching None, StatusCallback retrying (Some 2),
          StatusCallback fetching None, StatusCallback retrying (Some 3),
          StatusCallback fetching None, ErrorCallback http_error]
   \<and> intervals (run (failing_trace 0 60000 2 0 1 http_error http_error http_error http_error)
                  local_engine) = []"
proof -
  have h: "apiMethod local_engine = GET_USER_STATUS"
    "csrfToken local_engine = Some ''csrf-token''" "''csrf-token'' \<noteq> []"
    "retryCount local_engine = 0" "\<not> isRetrying local_engine"
    "\<not> isPollingTransition local_engine" "suspended local_engine = []"
    "timeouts local_engine = []" "intervals local_engine = []"
    "pollingInterval local_engine = None"
    by (simp_all add: local_engine_def newQuotaService_def)
  have n: "nextHandle local_engine = 0" "calls local_engine = []" "requests local_engine = []"
    "scheduled local_engine = []" "statusCallback local_engine" "isFirstAttempt local_engine"
    "errorCallback local_engine"
    by (simp_all add: local_engine_def newQuotaService_def)
  note t = retry_budget_exhausted [OF h, of _ 60000 2 0 1 http_error http_error http_error
        http_error, OF refl]
  note t1 = t [THEN conjunct1]
  note t2 = t [THEN conjunct2, THEN conjunct1]
  note t3 = t [THEN conjunct2, THEN conjunct2, THEN conjunct1]
  note t5 = t [THEN conjunct2, THEN conjunct2, THEN conjunct2, THEN conjunct2, THEN conjunct1]
  show ?thesis
    using t1 t2 t3 t5 h(1,4)
    by (simp add: n retry_calls_def attempt_calls_def)
qed

lemma http_error_class: "\<not> isAuthError http_error \<and> \<not> isNetworkOrTimeoutError http_error"
  by (simp add: isAuthError_def isNetworkOrTimeoutError_def http_error_def toLowerCase_def
      toLowerChar_def)

lemma overlap_state:
  "run overlap_trace local_engine =
     local_engine\<lparr>consecutiveErrors := 4, retryCount := 3, isRetrying := False,
       timeouts := [(3, 5000)], scheduled := [(0, 5000), (2, 5000), (3, 5000)],
       nextHandle := 4,
       calls := [StatusCallback fetching None, StatusCallback retrying (Some 1),
                 StatusCallback fetching None, StatusCallback fetching None,
                 StatusCallback retrying (Some 2), StatusCallback retrying (Some 3),
                 StatusCallback fetching None, ErrorCallback http_error],
       requests := [GET_USER_STATUS, GET_USER_STATUS, GET_USER_STATUS, GET_USER_STATUS]\<rparr>"
  by (simp add: overlap_trace_def run_Cons run_Nil engine_defs local_engine_def
      newQuotaService_def)

text \<open>
  Without that condition a fetch can follow the terminal error: \<open>isRetrying\<close> is cleared
  when the retry timeout fires, so a tick of the interval timer while the retried request
  is in flight starts a second request; both fail and each schedules a retry. When the
  budget is exhausted and the error callback has been called, the second of these
  timeouts is still armed, and when it fires a fifth request is sent.
\<close>

theorem retry_overlap_counterexample:
  "apiMethod local_engine = GET_USER_STATUS
   \<and> \<not> isAuthError http_error \<and> \<not> isNetworkOrTimeoutError http_error
   \<and> scheduled (run overlap_trace local_engine) = [(0, 5000), (2, 5000), (3, 5000)]
   \<and> last (calls (run overlap_trace local_engine)) = ErrorCallback http_error
   \<and> pollingInterval (run overlap_trace local_engine) = None
   \<and> intervals (run overlap_trace local_engine) = []
   \<and> suspended (run overlap_trace local_engine) = []
   \<and> timeouts (run overlap_trace local_engine) = [(3, 5000)]
   \<and> requests (run overlap_trace local_engine) = replicate 4 GET_USER_STATUS
   \<and> requests (run (overlap_trace @ [TimeoutFires 3]) local_engine)
        = replicate 5 GET_USER_STATUS"
  using http_error_class
  by (simp add: run_append overlap_state)
    (simp add: run_Cons run_Nil engine_defs local_engine_def newQuotaService_def numeral_eq_Suc)








text \<open>
  C8 (as the code has it). In local-RPC mode without a CSRF token (\<open>undefined\<close> or empty),
  a fetch attempt sends no request: the request function throws "Missing CSRF token"
  before any I/O. The failure is handled like any other failure of a local-RPC fetch: while
  the retry budget is not used up it increments the retry counter, sets \<open>isRetrying\<close> and
  schedules a retry after 5000 ms, still without any request.
\<close>

theorem missing_csrf_is_retried:
  assumes "apiMethod w = GET_USER_STATUS" and "csrfToken w = None \<or> csrfToken w = Some []"
  shows "requests (doFetchQuota_begin c w) = requests w
     \<and> suspended (doFetchQuota_begin c w) = suspended w @
          [(Rejected \<lparr>message = ''Missing CSRF token'', code = None, needsReauth = False\<rparr>, c)]
     \<and> (if retryCount w < MAX_RETRY_COUNT then
          requests (step (Continues (length (suspended w)) r) (doFetchQuota_begin FromTimer w))
            = requests w
          \<and> retryCount (step (Continues (length (suspended w)) r) (doFetchQuota_begin FromTimer w))
            = retryCount w + 1
          \<and> isRetrying (step (Continues (length (suspended w)) r) (doFetchQuota_begin FromTimer w))
          \<and> scheduled (step (Continues (length (suspended w)) r) (doFetchQuota_begin FromTimer w))
            = scheduled w @ [(nextHandle w, RETRY_DELAY_MS)]
          \<and> timeouts (step (Continues (length (suspended w)) r) (doFetchQuota_begin FromTimer w))
            = timeouts w @ [(nextHandle w, RETRY_DELAY_MS)]
        else True)"
  using assms by (auto simp: engine_defs nth_append)

theorem missing_csrf_is_retried_witness:
  "apiMethod (newQuotaService None NOT_AUTHENTICATED) = GET_USER_STATUS
   \<and> csrfToken (newQuotaService None NOT_AUTHENTICATED) = None
   \<and> suspended (doFetchQuota_begin FromTimer (newQuotaService None NOT_AUTHENTICATED))
       = [(Rejected \<lparr>message = ''Missing CSRF token'', code = None, needsReauth = False\<rparr>,
           FromTimer)]
   \<and> requests (doFetchQuota_begin FromTimer (newQuotaService None NOT_AUTHENTICATED)) = []"
proof -
  have m: "apiMethod (newQuotaService None NOT_AUTHENTICATED) = GET_USER_STATUS"
    and c: "csrfToken (newQuotaService None NOT_AUTHENTICATED) = None
            \<or> csrfToken (newQuotaService None NOT_AUTHENTICATED) = Some []"
    by (simp_all add: newQuotaService_def)
  show ?thesis
    using missing_csrf_is_retried [OF m c, of FromTimer "Failed http_error"] m
    by (simp add: newQuotaService_def)
qed

theorem missing_csrf_not_retryable_counterexample:
  "csrfToken (newQuotaService None NOT_AUTHENTICATED) = None
   \<and> requests (run [CallQuickRefresh, Continues 0 (Failed http_error)]
                 (newQuotaService None NOT_AUTHENTICATED)) = []
   \<and> retryCount (run [CallQuickRefresh, Continues 0 (Failed http_error)]
                 (newQuotaService None NOT_AUTHENTICATED)) = 1
   \<and> isRetrying (run [CallQuickRefresh, Continues 0 (Failed http_error)]
                 (newQuotaService None NOT_AUTHENTICATED)) = True
   \<and> scheduled (run [CallQuickRefresh, Continues 0 (Failed http_error)]
                 (newQuotaService None NOT_AUTHENTICATED)) = [(0, 5000)]"
  by (simp add: run_Cons run_Nil engine_defs newQuotaService_def)

subsection \<open>The login guards\<close>

text \<open>
  C7 (as the code has it). While the state is Authenticating, both \<open>login()\<close> and the
  imported-token login return false at once and change nothing: no callback listener is
  created, no token request is sent, no state is broadcast. While the state is Refreshing,
  the imported-token login is rejected in the same way; \<open>login()\<close> tests for Authenticating
  only.
\<close>

theorem login_guards:
  "(currentState svc = AUTHENTICATING \<longrightarrow>
      login_begin svc = (Some False, svc)
      \<and> loginWithRefreshToken_begin importedToken svc = (Some False, svc))
   \<and> (currentState svc = REFRESHING \<longrightarrow>
      loginWithRefreshToken_begin importedToken svc = (Some False, svc))
   \<and> (currentState svc \<noteq> AUTHENTICATING \<longrightarrow>
      fst (login_begin svc) = None
      \<and> serversCreated (snd (login_begin svc)) = serversCreated svc + 1
      \<and> currentState (snd (login_begin svc)) = AUTHENTICATING)"
  by (simp add: login_begin_def loginWithRefreshToken_begin_def setState_def)

theorem login_guards_witness:
  "currentState authenticating_service = AUTHENTICATING
   \<and> login_begin authenticating_service = (Some False, authenticating_service)
   \<and> loginWithRefreshToken_begin ''1//imported'' authenticating_service
       = (Some False, authenticating_service)
   \<and> currentState refreshing_service = REFRESHING
   \<and> loginWithRefreshToken_begin ''1//imported'' refreshing_service
       = (Some False, refreshing_service)"
proof -
  have a: "currentState authenticating_service = AUTHENTICATING"
    by (simp add: authenticating_service_def)
  have r: "currentState refreshing_service = REFRESHING"
    by (simp add: refreshing_service_def)
  from login_guards [of authenticating_service "''1//imported''"] a
    login_guards [of refreshing_service "''1//imported''"] r
  show ?thesis by simp
qed

theorem login_while_refreshing_counterexample:
  "currentState refreshing_service = REFRESHING
   \<and> fst (login_begin refreshing_service) = None
   \<and> currentState (snd (login_begin refreshing_service)) = AUTHENTICATING
   \<and> callbackServer (snd (login_begin refreshing_service)) = True
   \<and> serversCreated refreshing_service = 0
   \<and> serversCreated (snd (login_begin refreshing_service)) = 1"
  by (simp add: login_begin_def setState_def refreshing_service_def)

subsection \<open>The protobuf scanner on encoded messages\<close>

text \<open>Bytes of a varint: the low seven bits and the continuation bit.\<close>

lemma m7: "(0x7f :: 8 word) = mask 7" by (simp add: mask_eq_exp_minus_1)

lemma bit128_word: "bit (128 :: 8 word) n \<Longrightarrow> n = 7"
proof -
  have e: "(128 :: 8 word) = 2 ^ 7" by simp
  assume "bit (128 :: 8 word) n"
  then show ?thesis unfolding e by (simp only: bit_exp_iff)
qed

lemma bit128_int: "bit (128 :: int) n \<Longrightarrow> n = 7"
proof -
  have e: "(128 :: int) = 2 ^ 7" by simp
  assume "bit (128 :: int) n"
  then show ?thesis unfolding e by (simp only: bit_exp_iff)
qed

lemma byte_low: "(x OR 0x80) AND 0x7f = take_bit 7 (x :: 8 word)"
  unfolding m7 by (rule bit_eqI) (auto simp: bit_simps dest: bit128_word bit128_int)

lemma byte_high: "(x OR 0x80) AND 0x80 \<noteq> (0 :: 8 word)"
proof -
  have e: "(128 :: 8 word) = 2 ^ 7" by simp
  have "bit (128 :: 8 word) 7" unfolding e by (simp only: bit_exp_iff) simp
  then have "bit ((x OR 0x80) AND (0x80 :: 8 word)) 7"
    by (simp only: bit_and_iff bit_or_iff) simp
  then show ?thesis by auto
qed

lemma byte_low0: "take_bit 7 x AND 0x7f = take_bit 7 (x :: 8 word)"
  unfolding m7 by (rule bit_eqI) (auto simp: bit_simps)

lemma byte_high0: "take_bit 7 x AND 0x80 = (0 :: 8 word)"
  by (rule bit_eqI) (auto simp: bit_simps dest: bit128_word bit128_int)

lemma ucast_low: "(ucast (take_bit 7 (of_nat n :: 8 word)) :: 32 word) = of_nat (take_bit 7 n)"
  by (rule bit_eqI) (auto simp: bit_simps)

lemma split7: "(of_nat (take_bit 7 n) :: 32 word) OR push_bit 7 (of_nat (drop_bit 7 n)) = of_nat n"
  by (rule bit_eqI) (auto simp: bit_simps)

lemma sint_small: "n < 2 ^ 31 \<Longrightarrow> sint (of_nat n :: 32 word) = int n"
  by (simp add: signed_of_nat signed_take_bit_int_eq_self)

lemma small_byte: "n < 128 \<Longrightarrow> (of_nat n :: 8 word) = take_bit 7 (of_nat n)"
  by (simp add: take_bit_of_nat take_bit_nat_eq_self)

lemma mod_byte: "(of_nat (n mod 128) :: 8 word) = take_bit 7 (of_nat n)"
proof -
  have "n mod 128 = take_bit 7 n" by (simp add: take_bit_eq_mod)
  then show ?thesis by (simp only: of_nat_take_bit)
qed

lemma buffer_at_mid: "buffer_at (pre @ b # rest) (int (length pre)) = Some b"
  by (simp add: buffer_at_def)

lemma shift_bound:
  assumes "128 \<le> (n::nat)" "n * 2 ^ s < 2 ^ 32"
  shows "s + 7 < 32 \<and> (n div 128) * 2 ^ (s + 7) < 2 ^ 32"
proof -
  have e: "(2::nat) ^ (s + 7) = 128 * 2 ^ s" by (simp add: power_add)
  have "128 * (2::nat) ^ s \<le> n * 2 ^ s" using assms(1) by simp
  with assms(2) e have "(2::nat) ^ (s + 7) < 2 ^ 32" by linarith
  then have s: "s + 7 < 32" by (rule power_less_imp_less_exp [rotated]) simp
  have "n div 128 * 128 \<le> n" by simp
  then have "n div 128 * 128 * 2 ^ s \<le> n * 2 ^ s" by (rule mult_le_mono1)
  from this assms(2) have "n div 128 * 128 * 2 ^ s < 2 ^ 32" by (rule le_less_trans)
  moreover have "(n div 128) * 2 ^ (s + 7) = n div 128 * 128 * 2 ^ s"
    unfolding e by (simp only: mult.assoc)
  ultimately have "(n div 128) * 2 ^ (s + 7) < 2 ^ 32" by (simp only:)
  with s show ?thesis by (rule conjI)
qed

lemma readVarint_loop_varint:
  "s < 32 \<Longrightarrow> n * 2 ^ s < 2 ^ 32 \<Longrightarrow>
   readVarint_loop (pre @ varint n @ post) (int (length pre)) r s
     = (r OR push_bit s (of_nat n), int (length pre) + int (length (varint n)))"
proof (induction n arbitrary: pre r s rule: varint.induct)
  case (1 n)
  show ?case
  proof (cases "n < 128")
    case True
    then have v: "varint n = [take_bit 7 (of_nat n)]"
      by (simp add: varint.simps small_byte [symmetric])
    have t: "take_bit 7 n = n" using True by (simp add: take_bit_nat_eq_self)
    show ?thesis
      using "1.prems"
      by (subst readVarint_loop.simps)
        (simp add: v buffer_at_mid byte_low0 byte_high0 ucast_low t)
  next
    case False
    define b :: "8 word" where "b = take_bit 7 (of_nat n) OR 0x80"
    have v: "varint n = b # varint (n div 128)"
      using False by (subst varint.simps) (simp add: b_def mod_byte)
    from False have "128 \<le> n" by simp
    from shift_bound [OF this "1.prems"(2)]
    have sb: "s + 7 < 32" "n div 128 * 2 ^ (s + 7) < 2 ^ 32" by (rule conjunct1, rule conjunct2)
    have IH: "readVarint_loop (pre @ b # varint (n div 128) @ post)
               (int (length pre) + 1) r' (s + 7)
        = (r' OR push_bit (s + 7) (of_nat (n div 128)),
           int (length pre) + 1 + int (length (varint (n div 128))))" for r'
      using "1.IH" [OF False sb, where pre = "pre @ [b]" and r = r'] by (simp add: add.commute)
    have comb: "(r OR push_bit s (of_nat (take_bit 7 n))) OR push_bit (s + 7) (of_nat (n div 128))
                 = r OR push_bit s (of_nat n :: 32 word)"
    proof -
      have "push_bit s (of_nat n :: 32 word)
              = push_bit s (of_nat (take_bit 7 n) OR push_bit 7 (of_nat (drop_bit 7 n)))"
        by (simp only: split7)
      also have "\<dots> = push_bit s (of_nat (take_bit 7 n)) OR push_bit (s + 7) (of_nat (n div 128))"
        by (simp add: push_bit_or push_bit_push_bit drop_bit_eq_div add.commute)
      finally show ?thesis by (simp add: or.assoc)
    qed
    have low: "ucast (b AND 0x7f) = (of_nat (take_bit 7 n) :: 32 word)"
      by (simp only: b_def byte_low take_bit_take_bit) (simp add: ucast_low)
    have high: "b AND 0x80 \<noteq> 0" unfolding b_def by (rule byte_high)
    have "readVarint_loop (pre @ varint n @ post) (int (length pre)) r s
            = readVarint_loop (pre @ b # varint (n div 128) @ post) (int (length pre) + 1)
                (r OR push_bit s (of_nat (take_bit 7 n))) (s + 7)"
      using "1.prems"
      by (subst readVarint_loop.simps)
        (simp add: v buffer_at_mid low high del: of_nat_take_bit)
    also have "\<dots> = ((r OR push_bit s (of_nat (take_bit 7 n)))
                        OR push_bit (s + 7) (of_nat (n div 128)),
                      int (length pre) + 1 + int (length (varint (n div 128))))"
      by (rule IH)
    also have "\<dots> = (r OR push_bit s (of_nat n), int (length pre) + int (length (varint n)))"
      by (simp only: comb v) simp
    finally show ?thesis .
  qed
qed

lemma varint_nonempty: "varint n \<noteq> []"
  by (subst varint.simps) simp

lemma length_varint_pos: "0 < length (varint n)"
  using varint_nonempty [of n] by simp

lemma readVarint_varint:
  assumes "n < 2 ^ 31"
  shows "readVarint (pre @ varint n @ post) (int (length pre))
           = (int n, int (length pre) + int (length (varint n)))"
proof -
  from assms have "n * 2 ^ 0 < 2 ^ 32" by simp
  from readVarint_loop_varint [OF _ this, of pre post 0]
  have "readVarint_loop (pre @ varint n @ post) (int (length pre)) 0 0
          = (of_nat n, int (length pre) + int (length (varint n)))" by simp
  with assms show ?thesis by (simp add: readVarint_def sint_small)
qed

lemma readVarint_loop_skip:
  "snd (readVarint_loop (pre @ varint n @ post) (int (length pre)) r s)
     = int (length pre) + int (length (varint n))"
proof (induction n arbitrary: pre r s rule: varint.induct)
  case (1 n)
  show ?case
  proof (cases "n < 128")
    case True
    then have v: "varint n = [take_bit 7 (of_nat n)]"
      by (simp add: varint.simps small_byte [symmetric])
    show ?thesis
      by (subst readVarint_loop.simps) (simp add: v buffer_at_mid byte_high0 Let_def)
  next
    case False
    define b :: "8 word" where "b = take_bit 7 (of_nat n) OR 0x80"
    have v: "varint n = b # varint (n div 128)"
      using False by (subst varint.simps) (simp add: b_def mod_byte)
    have high: "b AND 0x80 \<noteq> 0" unfolding b_def by (rule byte_high)
    have IH: "snd (readVarint_loop (pre @ b # varint (n div 128) @ post)
               (int (length pre) + 1) r' s')
        = int (length pre) + 1 + int (length (varint (n div 128)))" for r' s'
      using "1.IH" [OF False, where pre = "pre @ [b]" and r = r' and s = s']
      by (simp add: add.commute)
    show ?thesis
      by (subst readVarint_loop.simps) (simp add: v buffer_at_mid high IH Let_def)
  qed
qed

lemma readVarint_skip:
  "snd (readVarint (pre @ varint n @ post) (int (length pre)))
     = int (length pre) + int (length (varint n))"
  using readVarint_loop_skip [of pre n post 0 0]
  by (cases "readVarint_loop (pre @ varint n @ post) (int (length pre)) 0 0")
    (simp add: readVarint_def)

lemma tag_wire_type: "b < 8 \<Longrightarrow> int (a * 8 + b) AND 7 = int b"
proof -
  assume b: "b < 8"
  have "int (a * 8 + b) AND 7 = int (a * 8 + b) AND mask 3"
    by (simp add: mask_eq_exp_minus_1)
  also have "\<dots> = int (a * 8 + b) mod 2 ^ 3"
    by (simp only: take_bit_eq_mask [symmetric] take_bit_eq_mod)
  also have "\<dots> = int b" using b by simp
  finally show ?thesis .
qed

lemma tag_field: "b < 8 \<Longrightarrow> drop_bit 3 (int (a * 8 + b)) = int a"
  by (simp add: drop_bit_eq_div)

lemma wire_type_small: "wire_type v < 8"
  by (cases v) simp_all

lemma tag_small: "num < 2 ^ 28 \<Longrightarrow> num * 8 + wire_type v < 2 ^ 31"
  using wire_type_small [of v] by simp

lemma adjustOffset_nat: "adjustOffset (int n) len = min n len"
  by (simp add: adjustOffset_def min_def)

lemma scan_at_end: "findProtobufField_loop B k (int (length B)) = Some None"
  by (subst findProtobufField_loop.simps) simp

lemma scan_step_found:
  assumes "pos < int (length B)" "readVarint B pos = (tag, tagEnd)" "tagEnd < int (length B)"
    "tag AND 7 = 2" "readVarint B tagEnd = (len, lenEnd)" "drop_bit 3 tag = k"
  shows "findProtobufField_loop B k pos = Some (Some (slice B lenEnd (lenEnd + len)))"
proof -
  from assms(3) have "\<not> int (length B) \<le> tagEnd" by simp
  with assms show ?thesis by (subst findProtobufField_loop.simps) simp
qed

lemma scan_step_length_delimited:
  assumes "pos < int (length B)" "readVarint B pos = (tag, tagEnd)" "tagEnd < int (length B)"
    "tag AND 7 = 2" "readVarint B tagEnd = (len, lenEnd)" "drop_bit 3 tag \<noteq> k"
  shows "findProtobufField_loop B k pos = findProtobufField_loop B k (lenEnd + len)"
proof -
  from assms(3) have "\<not> int (length B) \<le> tagEnd" by simp
  with assms show ?thesis by (subst findProtobufField_loop.simps) simp
qed

lemma scan_step_varint:
  assumes "pos < int (length B)" "readVarint B pos = (tag, tagEnd)" "tagEnd < int (length B)"
    "tag AND 7 = 0"
  shows "findProtobufField_loop B k pos
           = findProtobufField_loop B k (snd (readVarint B tagEnd))"
proof -
  from assms(3) have "\<not> int (length B) \<le> tagEnd" by simp
  with assms show ?thesis by (subst findProtobufField_loop.simps) simp
qed

lemma scan_step_fixed64:
  assumes "pos < int (length B)" "readVarint B pos = (tag, tagEnd)" "tagEnd < int (length B)"
    "tag AND 7 = 1"
  shows "findProtobufField_loop B k pos = findProtobufField_loop B k (tagEnd + 8)"
proof -
  from assms(3) have "\<not> int (length B) \<le> tagEnd" by simp
  with assms show ?thesis by (subst findProtobufField_loop.simps) simp
qed

lemma scan_step_fixed32:
  assumes "pos < int (length B)" "readVarint B pos = (tag, tagEnd)" "tagEnd < int (length B)"
    "tag AND 7 = 5"
  shows "findProtobufField_loop B k pos = findProtobufField_loop B k (tagEnd + 4)"
proof -
  from assms(3) have "\<not> int (length B) \<le> tagEnd" by simp
  with assms show ?thesis by (subst findProtobufField_loop.simps) simp
qed

lemma scan_skip_field:
  assumes wf: "well_formed f" and nt: "\<not> is_target k f"
  shows "findProtobufField_loop (pre @ encode_field f @ post) (int k) (int (length pre))
       = findProtobufField_loop (pre @ encode_field f @ post) (int k)
           (int (length pre) + int (length (encode_field f)))"
proof -
  obtain num v where f: "f = (num, v)" by (cases f)
  define tag where "tag = num * 8 + wire_type v"
  define B where "B = pre @ encode_field f @ post"
  define tagEnd where "tagEnd = int (length pre) + int (length (varint tag))"
  have num: "num < 2 ^ 28" using wf f by (cases v) simp_all
  have tag31: "tag < 2 ^ 31" unfolding tag_def using num by (rule tag_small)
  have Bt: "B = pre @ varint tag @ (encode_value v @ post)"
    by (simp add: B_def encode_field_def f tag_def)
  have rv1: "readVarint B (int (length pre)) = (int tag, tagEnd)"
    unfolding Bt tagEnd_def using tag31 by (rule readVarint_varint)
  have wt: "int tag AND 7 = int (wire_type v)"
    unfolding tag_def by (rule tag_wire_type) (rule wire_type_small)
  have fld: "drop_bit 3 (int tag) = int num"
    unfolding tag_def by (rule tag_field) (rule wire_type_small)
  have "0 < length (encode_value v)"
    using wf f length_varint_pos by (cases v) simp_all
  then have vpos: "0 < int (length (encode_value v))" by simp
  have lenB: "int (length B) = tagEnd + int (length (encode_value v)) + int (length post)"
    by (simp add: Bt tagEnd_def)
  have p0: "int (length pre) < int (length B)"
    using lenB vpos unfolding tagEnd_def by linarith
  have p1: "tagEnd < int (length B)"
    using lenB vpos by linarith
  have lenF: "int (length pre) + int (length (encode_field f))
                = tagEnd + int (length (encode_value v))"
    by (simp add: encode_field_def f tag_def tagEnd_def)
  have "findProtobufField_loop B (int k) (int (length pre))
          = findProtobufField_loop B (int k) (tagEnd + int (length (encode_value v)))"
  proof (cases v)
    case (Varint n)
    have "B = (pre @ varint tag) @ varint n @ post" by (simp add: Bt Varint)
    then have rv2: "snd (readVarint B tagEnd) = tagEnd + int (length (encode_value v))"
      using readVarint_skip [of "pre @ varint tag" n post] by (simp add: tagEnd_def Varint)
    from wt Varint have "int tag AND 7 = 0" by simp
    from scan_step_varint [OF p0 rv1 p1 this] show ?thesis by (simp only: rv2)
  next
    case (Fixed64 b)
    with wf f have l: "int (length (encode_value v)) = 8" by simp
    from wt Fixed64 have "int tag AND 7 = 1" by simp
    from scan_step_fixed64 [OF p0 rv1 p1 this] show ?thesis by (simp only: l)
  next
    case (Fixed32 b)
    with wf f have l: "int (length (encode_value v)) = 4" by simp
    from wt Fixed32 have "int tag AND 7 = 5" by simp
    from scan_step_fixed32 [OF p0 rv1 p1 this] show ?thesis by (simp only: l)
  next
    case (LengthDelimited b)
    with wf f have b31: "length b < 2 ^ 31" by simp
    from nt f LengthDelimited have ne: "drop_bit 3 (int tag) \<noteq> int k" by (simp add: fld)
    have "B = (pre @ varint tag) @ varint (length b) @ (b @ post)"
      by (simp add: Bt LengthDelimited)
    then have rv2: "readVarint B tagEnd
        = (int (length b), tagEnd + int (length (varint (length b))))"
      using readVarint_varint [OF b31, of "pre @ varint tag" "b @ post"]
      by (simp add: tagEnd_def)
    have l: "tagEnd + int (length (varint (length b))) + int (length b)
               = tagEnd + int (length (encode_value v))"
      by (simp add: LengthDelimited)
    from wt LengthDelimited have "int tag AND 7 = 2" by simp
    from scan_step_length_delimited [OF p0 rv1 p1 this rv2 ne] show ?thesis by (simp only: l)
  qed
  then show ?thesis by (simp only: B_def [symmetric] lenF)
qed

lemma slice_clamped:
  "slice (pre @ rest) (int (length pre)) (int (length pre) + int n) = take n rest"
proof -
  have "int (length pre) + int n = int (length pre + n)" by simp
  then show ?thesis
    by (simp only: slice_def adjustOffset_nat Let_def) (simp add: min_def)
qed

lemma scan_finds_field:
  assumes num: "num < 2 ^ 28" and n31: "n < 2 ^ 31"
  shows "findProtobufField_loop (pre @ varint (num * 8 + 2) @ varint n @ rest) (int num)
           (int (length pre)) = Some (Some (take n rest))"
proof -
  define tag where "tag = num * 8 + 2"
  define B where "B = pre @ varint tag @ varint n @ rest"
  define tagEnd where "tagEnd = int (length pre) + int (length (varint tag))"
  have tag31: "tag < 2 ^ 31" unfolding tag_def using num by simp
  have rv1: "readVarint B (int (length pre)) = (int tag, tagEnd)"
    unfolding B_def tagEnd_def using tag31 by (rule readVarint_varint)
  have wt: "int tag AND 7 = 2"
    unfolding tag_def using tag_wire_type [of 2 num] by simp
  have fld: "drop_bit 3 (int tag) = int num"
    unfolding tag_def by (rule tag_field) simp
  have lenB: "int (length B) = tagEnd + int (length (varint n)) + int (length rest)"
    by (simp add: B_def tagEnd_def)
  have "0 < int (length (varint n))" using length_varint_pos [of n] by simp
  with lenB have p: "int (length pre) < int (length B)" "tagEnd < int (length B)"
    unfolding tagEnd_def by linarith+
  have rv2: "readVarint B tagEnd = (int n, tagEnd + int (length (varint n)))"
    using readVarint_varint [OF n31, of "pre @ varint tag" rest]
    by (simp add: tagEnd_def B_def)
  have sl: "slice B (tagEnd + int (length (varint n)))
              (tagEnd + int (length (varint n)) + int n) = take n rest"
    using slice_clamped [of "pre @ varint tag @ varint n" rest n]
    by (simp add: B_def tagEnd_def add.assoc)
  from scan_step_found [OF p(1) rv1 p(2) wt rv2 fld] show ?thesis
    by (simp only: sl B_def [symmetric] tag_def [symmetric])
qed

lemma scan_skip_fields:
  assumes "\<forall>f \<in> set fs. well_formed f \<and> \<not> is_target k f"
  shows "findProtobufField_loop (pre @ encode_message fs @ post) (int k) (int (length pre))
       = findProtobufField_loop (pre @ encode_message fs @ post) (int k)
           (int (length pre) + int (length (encode_message fs)))"
  using assms
proof (induction fs arbitrary: pre)
  case Nil
  show ?case by (simp add: encode_message_def)
next
  case (Cons f fs)
  have e: "encode_message (f # fs) = encode_field f @ encode_message fs"
    by (simp add: encode_message_def)
  from Cons.prems have wf: "well_formed f" and nt: "\<not> is_target k f"
    and rest: "\<forall>f \<in> set fs. well_formed f \<and> \<not> is_target k f" by simp_all
  have "findProtobufField_loop (pre @ encode_field f @ (encode_message fs @ post)) (int k)
          (int (length pre))
      = findProtobufField_loop (pre @ encode_field f @ (encode_message fs @ post)) (int k)
          (int (length pre) + int (length (encode_field f)))"
    using wf nt by (rule scan_skip_field)
  also have "\<dots> = findProtobufField_loop ((pre @ encode_field f) @ encode_message fs @ post)
          (int k) (int (length (pre @ encode_field f)))"
    by simp
  also have "\<dots> = findProtobufField_loop ((pre @ encode_field f) @ encode_message fs @ post)
          (int k) (int (length (pre @ encode_field f)) + int (length (encode_message fs)))"
    using rest by (rule Cons.IH)
  finally show ?case by (simp add: e add.assoc)
qed

lemma encode_message_append:
  "encode_message (fs @ gs) = encode_message fs @ encode_message gs"
  by (simp add: encode_message_def)

lemma encode_message_Cons:
  "encode_message (f # fs) = encode_field f @ encode_message fs"
  by (simp add: encode_message_def)

lemma findProtobufField_finds:
  assumes skip: "\<forall>f \<in> set fs. well_formed f \<and> \<not> is_target k f"
    and k: "k < 2 ^ 28" and n: "n < 2 ^ 31"
  shows "findProtobufField (encode_message fs @ varint (k * 8 + 2) @ varint n @ rest) (int k)
           = Some (Some (take n rest))"
proof -
  have "findProtobufField ([] @ encode_message fs @ (varint (k * 8 + 2) @ varint n @ rest)) (int k)
      = findProtobufField_loop ([] @ encode_message fs @ (varint (k * 8 + 2) @ varint n @ rest))
          (int k) (int (length ([] :: Buffer)) + int (length (encode_message fs)))"
    unfolding findProtobufField_def using scan_skip_fields [OF skip, of "[]"] by simp
  also have "\<dots> = findProtobufField_loop
         (encode_message fs @ varint (k * 8 + 2) @ varint n @ rest) (int k)
         (int (length (encode_message fs)))" by simp
  also have "\<dots> = Some (Some (take n rest))" using k n by (rule scan_finds_field)
  finally show ?thesis by simp
qed

lemma findProtobufField_absent:
  assumes skip: "\<forall>f \<in> set fs. well_formed f \<and> \<not> is_target k f"
  shows "findProtobufField (encode_message fs) (int k) = Some None"
proof -
  have "findProtobufField ([] @ encode_message fs @ []) (int k)
      = findProtobufField_loop ([] @ encode_message fs @ []) (int k)
          (int (length ([] :: Buffer)) + int (length (encode_message fs)))"
    unfolding findProtobufField_def using scan_skip_fields [OF skip, of "[]" "[]"] by simp
  also have "\<dots> = findProtobufField_loop (encode_message fs) (int k)
                       (int (length (encode_message fs)))" by simp
  also have "\<dots> = Some None" by (rule scan_at_end)
  finally show ?thesis by simp
qed

text \<open>
  C4 (as the code has it). For every message whose first length-delimited field 6 holds an
  embedded message whose first length-delimited field 3 holds the token bytes, whatever
  other fields come before and after them (tags and lengths below \<open>2^31\<close>), the parser
  returns exactly the token bytes decoded as a string. For every message without a
  length-delimited field 6 it returns absent. On the synthetic buffer cut off anywhere
  inside the token bytes it returns the bytes that are left, decoded, not absent: the
  slice is clamped to the buffer. (The parser has no throwing operation.)
\<close>

theorem parse_extracts_refresh_token:
  assumes outer: "\<forall>f \<in> set fs1. well_formed f \<and> \<not> is_target 6 f"
    and inner: "\<forall>g \<in> set gs1. well_formed g \<and> \<not> is_target 3 g"
    and token: "length token < 2 ^ 31"
    and embedded: "length (encode_message (gs1 @ (3, LengthDelimited token) # gs2)) < 2 ^ 31"
    and absent: "\<forall>f \<in> set fs. well_formed f \<and> \<not> is_target 6 f"
    and direct: "length (encode_message [(3, LengthDelimited token)]) < 2 ^ 31"
    and cut: "length (token_message token) - length token \<le> c"
  shows "parseProtobufForRefreshToken toString
           (encode_message
              (fs1 @ (6, LengthDelimited (encode_message (gs1 @ (3, LengthDelimited token) # gs2)))
               # fs2))
         = Some (Some (toString token))
     \<and> parseProtobufForRefreshToken toString (encode_message fs) = Some None
     \<and> parseProtobufForRefreshToken toString (take c (token_message token))
         = Some (Some (toString
                   (take (c - (length (token_message token) - length token)) token)))"
proof (intro conjI)
  define I where "I = encode_message (gs1 @ (3, LengthDelimited token) # gs2)"
  have I: "I = encode_message gs1 @ varint (3 * 8 + 2) @ varint (length token)
                 @ (token @ encode_message gs2)"
    by (simp add: I_def encode_message_append encode_message_Cons encode_field_def)
  have O: "encode_message (fs1 @ (6, LengthDelimited I) # fs2)
             = encode_message fs1 @ varint (6 * 8 + 2) @ varint (length I)
                 @ (I @ encode_message fs2)"
    by (simp add: encode_message_append encode_message_Cons encode_field_def)
  have "findProtobufField (encode_message (fs1 @ (6, LengthDelimited I) # fs2)) 6
          = Some (Some (take (length I) (I @ encode_message fs2)))"
    unfolding O using findProtobufField_finds [OF outer _ embedded [folded I_def]] by simp
  moreover have "findProtobufField I 3 = Some (Some (take (length token) (token @ encode_message gs2)))"
    unfolding I using findProtobufField_finds [OF inner _ token] by simp
  ultimately show "parseProtobufForRefreshToken toString
           (encode_message
              (fs1 @ (6, LengthDelimited (encode_message (gs1 @ (3, LengthDelimited token) # gs2)))
               # fs2))
         = Some (Some (toString token))"
    by (simp add: parseProtobufForRefreshToken_def I_def [symmetric])
next
  show "parseProtobufForRefreshToken toString (encode_message fs) = Some None"
    using findProtobufField_absent [OF absent]
    by (simp add: parseProtobufForRefreshToken_def)
next
  define J where "J = encode_message [(3, LengthDelimited token)]"
  define H where "H = varint (6 * 8 + 2) @ varint (length J)"
  define G where "G = varint (3 * 8 + 2) @ varint (length token)"
  define m where "m = c - (length (token_message token) - length token)"
  have J: "J = G @ token"
    by (simp add: J_def G_def encode_message_def encode_field_def)
  have "token_message token = H @ J"
    unfolding token_message_def J_def [symmetric]
    by (simp add: H_def encode_message_def encode_field_def)
  then have T: "token_message token = H @ G @ token"
    by (simp only: J)
  have hdr: "length (token_message token) - length token = length H + length G"
    by (simp add: T)
  with cut have c: "c = length H + length G + m" by (simp add: m_def)
  have cutT: "take c (token_message token) = H @ G @ take m token"
    by (simp add: T c)
  have lenJ: "length J < 2 ^ 31" using direct by (simp add: J_def)
  have short: "length (G @ take m token) \<le> length J" by (simp add: J)
  have "findProtobufField ([] @ varint (6 * 8 + 2) @ varint (length J) @ (G @ take m token)) 6
          = Some (Some (take (length J) (G @ take m token)))"
    using findProtobufField_finds [of "[]" 6 "length J" "G @ take m token"] lenJ
    by (simp add: encode_message_def)
  moreover have "take (length J) (G @ take m token) = G @ take m token"
    using short by (rule take_all)
  ultimately have f6: "findProtobufField (take c (token_message token)) 6
                   = Some (Some (G @ take m token))"
    by (simp only: cutT H_def append_Nil append_assoc)
  have "findProtobufField ([] @ varint (3 * 8 + 2) @ varint (length token) @ take m token) 3
          = Some (Some (take (length token) (take m token)))"
    using findProtobufField_finds [of "[]" 3 "length token" "take m token"] token
    by (simp add: encode_message_def)
  moreover have "take (length token) (take m token) = take m token"
    by (rule take_all) simp
  ultimately have f3: "findProtobufField (G @ take m token) 3 = Some (Some (take m token))"
    by (simp only: G_def append_Nil append_assoc)
  show "parseProtobufForRefreshToken toString (take c (token_message token))
         = Some (Some (toString
                   (take (c - (length (token_message token) - length token)) token)))"
    unfolding m_def [symmetric]
    by (simp add: parseProtobufForRefreshToken_def f6 f3)
qed

lemma sample_embedded_small:
  "length (encode_message [(3, LengthDelimited sample_token)]) < 2 ^ 31"
  by (simp add: encode_message_def encode_field_def varint.simps sample_token_def)

lemma token_message_sample:
  "token_message sample_token = [0x32, 0x16, 0x1A, 0x14] @ sample_token"
  by (simp add: token_message_def encode_message_def encode_field_def varint.simps
      sample_token_def)

theorem parse_extracts_refresh_token_witness:
  "length sample_token < 2 ^ 31
   \<and> token_message sample_token = [0x32, 0x16, 0x1A, 0x14] @ sample_token
   \<and> parseProtobufForRefreshToken ascii_toString (token_message sample_token)
       = Some (Some ''sample-refresh-token'')
   \<and> parseProtobufForRefreshToken ascii_toString (encode_message [(1, Varint 300)]) = Some None"
proof -
  have t: "length sample_token < 2 ^ 31" by (simp add: sample_token_def)
  have e: "length (encode_message ([] @ (3, LengthDelimited sample_token) # [])) < 2 ^ 31"
    using sample_embedded_small by simp
  have o: "\<forall>f \<in> set []. well_formed f \<and> \<not> is_target 6 f"
    and i: "\<forall>g \<in> set []. well_formed g \<and> \<not> is_target 3 g"
    and a: "\<forall>f \<in> set [(1, Varint 300)]. well_formed f \<and> \<not> is_target 6 f"
    by simp_all
  have c: "length (token_message sample_token) - length sample_token \<le> 24"
    by (simp add: token_message_sample)
  have s: "ascii_toString sample_token = ''sample-refresh-token''"
    by (simp add: ascii_toString_def sample_token_def char_of_def bit_Suc_0_iff)
  from parse_extracts_refresh_token [OF o i t e a sample_embedded_small c,
      of ascii_toString "[]"]
  have "parseProtobufForRefreshToken ascii_toString (token_message sample_token)
          = Some (Some (ascii_toString sample_token))
      \<and> parseProtobufForRefreshToken ascii_toString (encode_message [(1, Varint 300)])
          = Some None"
    by (simp add: token_message_def)
  with t token_message_sample s show ?thesis by simp
qed

theorem parse_truncated_counterexample:
  "take 10 (token_message sample_token)
     = [0x32, 0x16, 0x1A, 0x14, 0x73, 0x61, 0x6D, 0x70, 0x6C, 0x65]
   \<and> parseProtobufForRefreshToken ascii_toString
        [0x32, 0x16, 0x1A, 0x14, 0x73, 0x61, 0x6D, 0x70, 0x6C, 0x65]
       = Some (Some ''sample'')"
proof -
  have "ascii_toString [0x73, 0x61, 0x6D, 0x70, 0x6C, 0x65] = ''sample''"
    by (simp add: ascii_toString_def char_of_def bit_Suc_0_iff)
  moreover have "parseProtobufForRefreshToken ascii_toString
        [0x32, 0x16, 0x1A, 0x14, 0x73, 0x61, 0x6D, 0x70, 0x6C, 0x65]
       = Some (Some (ascii_toString [0x73, 0x61, 0x6D, 0x70, 0x6C, 0x65]))"
    by (simp add: parseProtobufForRefreshToken_def findProtobufField_def
        findProtobufField_loop.simps readVarint_def readVarint_loop.simps buffer_at_def
        slice_def adjustOffset_def)
  moreover have "take 10 (token_message sample_token)
     = [0x32, 0x16, 0x1A, 0x14, 0x73, 0x61, 0x6D, 0x70, 0x6C, 0x65]"
    unfolding token_message_sample by (simp add: sample_token_def)
  ultimately show ?thesis by simp
qed

end
